theory Spec2Isabelle
  imports Complex_Main "HOL-Library.Char_ord" "HOL-Library.List_Lexorder" "HOL-Library.AList"
begin

section \<open>Strings and POSIX path operations\<close>

text \<open>
  Paths are Python \<open>str\<close> values, modelled as \<open>string\<close>. The operations of
  \<open>os.path\<close> follow \<open>posixpath\<close>: the separator is \<open>/\<close>.
\<close>

definition sep :: char where
  "sep = CHR ''/''"

definition backslash :: char where
  "backslash = CHR 0x5C"

definition startswith :: "string \<Rightarrow> string \<Rightarrow> bool" where
  "startswith s p = (take (length p) s = p)"

definition endswith :: "string \<Rightarrow> string \<Rightarrow> bool" where
  "endswith s p = (length p \<le> length s \<and> drop (length s - length p) s = p)"

text \<open>\<open>str.lower\<close> on the ASCII letters.\<close>

definition lower_char :: "char \<Rightarrow> char" where
  "lower_char c =
     (case map_of (zip ''ABCDEFGHIJKLMNOPQRSTUVWXYZ'' ''abcdefghijklmnopqrstuvwxyz'') c of
        Some d \<Rightarrow> d
      | None \<Rightarrow> c)"

definition lower :: "string \<Rightarrow> string" where
  "lower s = map lower_char s"

text \<open>
  \<open>str.strip()\<close> removes the characters for which \<open>str.isspace\<close> holds. A
  \<open>char\<close> is a code point below 256; among those the white space is 9 to 13, 28 to
  32, 133 (U+0085) and 160 (U+00A0).
\<close>

definition is_space :: "char \<Rightarrow> bool" where
  "is_space c =
     (let n = (of_char c :: nat)
      in (9 \<le> n \<and> n \<le> 13) \<or> (28 \<le> n \<and> n \<le> 32) \<or> n = 133 \<or> n = 160)"

definition strip :: "string \<Rightarrow> string" where
  "strip s = rev (dropWhile is_space (rev (dropWhile is_space s)))"

text \<open>\<open>path.replace("\\", "/")\<close>\<close>

definition replace_backslash :: "string \<Rightarrow> string" where
  "replace_backslash s = map (\<lambda>c. if c = backslash then sep else c) s"

text \<open>\<open>posixpath.basename\<close>: everything after the last separator.\<close>

definition basename :: "string \<Rightarrow> string" where
  "basename p = rev (takeWhile (\<lambda>c. c \<noteq> sep) (rev p))"

text \<open>
  \<open>posixpath.dirname\<close>: the head up to the last separator, with trailing
  separators removed unless the head consists of separators only.
\<close>

definition dirname :: "string \<Rightarrow> string" where
  "dirname p =
     (let head = rev (dropWhile (\<lambda>c. c \<noteq> sep) (rev p))
      in if head \<noteq> [] \<and> \<not> (\<forall>c \<in> set head. c = sep)
         then rev (dropWhile (\<lambda>c. c = sep) (rev head))
         else head)"

text \<open>\<open>posixpath.join\<close> with two arguments.\<close>

definition join_path :: "string \<Rightarrow> string \<Rightarrow> string" where
  "join_path a b =
     (if startswith b [sep] then b
      else if a = [] \<or> endswith a [sep] then a @ b
      else a @ [sep] @ b)"

section \<open>Shell globs (\<open>fnmatch\<close>)\<close>

text \<open>
  \<open>fnmatch.fnmatch(name, pat)\<close> of the Python standard library, as it behaves on
  POSIX (\<open>normcase\<close> is the identity): the pattern is translated to a regular expression
  that has to match the whole name. \<open>*\<close> matches any sequence of characters (the
  separator included), \<open>?\<close> one character, \<open>[seq]\<close> one character of the set,
  \<open>[!seq]\<close> one character outside it; a \<open>[\<close> without a closing bracket is literal.
\<close>

datatype glob_item = Single char | Range char char

datatype glob_token = Star | AnyChar | Lit char | CharClass bool "glob_item list"

fun class_items :: "string \<Rightarrow> glob_item list" where
  "class_items (a # m # b # rest) =
     (if m = CHR ''-'' then Range a b # class_items rest
      else Single a # class_items (m # b # rest))"
| "class_items (a # rest) = Single a # class_items rest"
| "class_items [] = []"

text \<open>
  The text after an opening bracket: an optional \<open>!\<close>, an optional \<open>]\<close> that
  belongs to the set, then everything up to the next \<open>]\<close>. The result is the
  negation flag, the set's text and the pattern after the closing bracket, or
  \<open>None\<close> when no bracket closes the set.
\<close>

definition bracket_split :: "string \<Rightarrow> (bool \<times> string \<times> string) option" where
  "bracket_split s =
     (let neg = startswith s ''!'';
          s1 = (if neg then tl s else s);
          lead = startswith s1 '']'';
          s2 = (if lead then tl s1 else s1)
      in case dropWhile (\<lambda>c. c \<noteq> CHR '']'') s2 of
           [] \<Rightarrow> None
         | _ # rest \<Rightarrow>
             Some (neg, (if lead then '']'' else []) @ takeWhile (\<lambda>c. c \<noteq> CHR '']'') s2, rest))"

lemma dropWhile_tail_shorter:
  "dropWhile P xs = y # ys \<Longrightarrow> length ys < length xs"
proof -
  assume h: "dropWhile P xs = y # ys"
  have "length (dropWhile P xs) \<le> length xs" by (rule length_dropWhile_le)
  with h show ?thesis by simp
qed

lemma bracket_split_shorter:
  assumes "bracket_split s = Some (neg, body, rest)"
  shows "length rest \<le> length s"
proof -
  define s1 where "s1 = (if startswith s ''!'' then tl s else s)"
  define s2 where "s2 = (if startswith s1 '']'' then tl s1 else s1)"
  have l2: "length s2 \<le> length s" unfolding s2_def s1_def by simp
  from assms obtain y where "dropWhile (\<lambda>c. c \<noteq> CHR '']'') s2 = y # rest"
    unfolding bracket_split_def Let_def s1_def [symmetric] s2_def [symmetric]
    by (cases "dropWhile (\<lambda>c. c \<noteq> CHR '']'') s2") simp_all
  then have "length rest < length s2" by (rule dropWhile_tail_shorter)
  with l2 show ?thesis by simp
qed

function glob_parse :: "string \<Rightarrow> glob_token list" where
  "glob_parse [] = []"
| "glob_parse (c # cs) =
     (if c = CHR ''*'' then Star # glob_parse cs
      else if c = CHR ''?'' then AnyChar # glob_parse cs
      else if c = CHR ''['' then
        (case bracket_split cs of
           None \<Rightarrow> Lit c # glob_parse cs
         | Some (neg, body, rest) \<Rightarrow> CharClass neg (class_items body) # glob_parse rest)
      else Lit c # glob_parse cs)"
  by pat_completeness auto
termination
  by (relation "measure length") (auto dest: bracket_split_shorter)

fun in_item :: "char \<Rightarrow> glob_item \<Rightarrow> bool" where
  "in_item c (Single a) = (c = a)"
| "in_item c (Range a b) = (a \<le> c \<and> c \<le> b)"

fun glob_match :: "glob_token list \<Rightarrow> string \<Rightarrow> bool" where
  "glob_match [] s = (s = [])"
| "glob_match (Star # ts) [] = glob_match ts []"
| "glob_match (Star # ts) (c # s) = (glob_match ts (c # s) \<or> glob_match (Star # ts) s)"
| "glob_match (AnyChar # ts) (c # s) = glob_match ts s"
| "glob_match (Lit a # ts) (c # s) = (a = c \<and> glob_match ts s)"
| "glob_match (CharClass neg items # ts) (c # s) =
     ((list_ex (in_item c) items \<noteq> neg) \<and> glob_match ts s)"
| "glob_match (t # ts) [] = False"

definition fnmatch :: "string \<Rightarrow> string \<Rightarrow> bool" where
  "fnmatch name pat = glob_match (glob_parse pat) name"

section \<open>Application state\<close>

text \<open>
  The fields of \<open>FolderMonitorApp\<close> that the scanner, the filters, the export and
  the persistence read or write. \<open>folder_tree_data\<close> is a Python \<open>dict\<close>
  (path to \<open>{'checked', 'is_dir'}\<close>), kept as an association list in insertion
  order; \<open>visited_dirs\<close> is a Python \<open>set\<close>. The Tk widgets
  (\<open>tree\<close>, \<open>tree_ids_map\<close>) only mirror \<open>folder_tree_data\<close> on screen and
  are left out. \<open>expanded\<close> is a trace that no field of the source holds: it
  records, in order, every directory whose contents \<open>add_directory_contents\<close>
  lists.
\<close>

record node =
  checked :: bool
  is_dir :: bool

text \<open>
  The callbacks that \<open>apply_saved_checks\<close> hands to \<open>master.after\<close>. The field
  \<open>timers\<close> holds what has been handed over, each with its delay in milliseconds,
  in the order of the calls.
\<close>

datatype callback = ExpandToShowSelected | DelayedApplyRemainingChecks | ClearSavedChecks

record app =
  root_folders :: "string list"
  ignore_patterns :: "string list"
  filter_system_folders :: bool
  folder_tree_data :: "(string \<times> node) list"
  visited_dirs :: "string set"
  saved_folder_checks :: "(string \<times> bool) list"
  copy_entire_tree :: bool
  enable_timeouts :: bool
  current_profile :: string
  timers :: "(nat \<times> callback) list"
  expanded :: "string list"

definition default_ignore_patterns :: "string list" where
  "default_ignore_patterns =
     [''*/.git/*'', ''*/.venv/*'', ''*/__pycache__/*'', ''*/.vs/*'', ''*/.vscode/*'',
      ''*/.idea/*'', ''*/node_modules/*'', ''*/build/*'', ''*/dist/*'', ''*/.svn/*'',
      ''*/.DS_Store'']"

section \<open>The ignore matcher\<close>

text \<open>
  One pass of \<open>for pat in patterns: pclean = pat.strip(); if pclean and
  fnmatch.fnmatch(fpath, pclean): return True\<close>.
\<close>

fun any_pattern_matches :: "string \<Rightarrow> string list \<Rightarrow> bool" where
  "any_pattern_matches fpath [] = False"
| "any_pattern_matches fpath (pat # pats) =
     (let pclean = strip pat
      in if pclean \<noteq> [] \<and> fnmatch fpath pclean then True
         else any_pattern_matches fpath pats)"

definition filters_match :: "app \<Rightarrow> string \<Rightarrow> bool" where
  "filters_match a path =
     (let fpath = replace_backslash path
      in if any_pattern_matches fpath (ignore_patterns a) then True
         else if filter_system_folders a then
           (if any_pattern_matches fpath default_ignore_patterns then True
            else if startswith (basename path) ''.'' \<and> length (basename path) > 1 then True
            else False)
         else False)"

section \<open>The filesystem\<close>

text \<open>
  What the scanner asks the operating system. \<open>listdir\<close> and \<open>samefile\<close>
  return \<open>None\<close> where the call raises \<open>OSError\<close>; \<open>os.path.exists\<close>,
  \<open>isdir\<close>, \<open>islink\<close> and \<open>realpath\<close> do not raise. \<open>responds p\<close>
  says that the access probe of \<open>check_folder_access_with_timeout\<close> on \<open>p\<close>
  finishes within \<open>FOLDER_ACCESS_TIMEOUT\<close>.
\<close>

record filesys =
  path_exists :: "string \<Rightarrow> bool"
  path_isdir :: "string \<Rightarrow> bool"
  path_islink :: "string \<Rightarrow> bool"
  listdir :: "string \<Rightarrow> string list option"
  realpath :: "string \<Rightarrow> string"
  samefile :: "string \<Rightarrow> string \<Rightarrow> bool option"
  responds :: "string \<Rightarrow> bool"

section \<open>The path classifier\<close>

definition is_potentially_problematic_path :: "filesys \<Rightarrow> string \<Rightarrow> bool" where
  "is_potentially_problematic_path fs path =
     (if startswith path [backslash, backslash] \<or> startswith path ''//'' then True
      else if list_ex (\<lambda>protocol. startswith (lower path) protocol)
                [''ftp://'', ''sftp://'', ''ftps://''] then True
      else if length path > 200 then True
      else if \<not> path_exists fs path then True
      else False)"

text \<open>
  \<open>check_folder_access_with_timeout\<close>: a local path is checked directly; a
  problematic one is probed on a thread (or under an alarm) and counts as
  inaccessible when the probe does not finish in time.
\<close>

definition check_folder_access_with_timeout :: "filesys \<Rightarrow> string \<Rightarrow> bool" where
  "check_folder_access_with_timeout fs folder_path =
     (if \<not> is_potentially_problematic_path fs folder_path
      then path_exists fs folder_path \<and> path_isdir fs folder_path
      else responds fs folder_path \<and> path_exists fs folder_path)"

section \<open>The tree scanner\<close>

definition tree_keys :: "app \<Rightarrow> string set" where
  "tree_keys a = fst ` set (folder_tree_data a)"

text \<open>\<open>self.folder_tree_data[path] = {'checked': False, 'is_dir': d}\<close>\<close>

definition register_node :: "string \<Rightarrow> bool \<Rightarrow> app \<Rightarrow> app" where
  "register_node path d a =
     a\<lparr>folder_tree_data :=
         AList.update path \<lparr>checked = False, is_dir = d\<rparr> (folder_tree_data a)\<rparr>"

text \<open>
  \<open>add_directory_contents\<close> and its \<open>for item in items\<close> loop. The first
  argument bounds the depth of the recursion; \<open>None\<close> says that the bound was
  reached before the scan returned.
\<close>

fun add_directory_contents :: "nat \<Rightarrow> filesys \<Rightarrow> string \<Rightarrow> app \<Rightarrow> app option"
  and add_items :: "nat \<Rightarrow> filesys \<Rightarrow> string \<Rightarrow> string list \<Rightarrow> app \<Rightarrow> app option"
where
  "add_directory_contents 0 fs directory_path a = None"
| "add_directory_contents (Suc n) fs directory_path a =
     (if (if is_potentially_problematic_path fs directory_path
          then \<not> check_folder_access_with_timeout fs directory_path
          else \<not> (path_exists fs directory_path \<and> path_isdir fs directory_path))
      then Some a
      else case listdir fs directory_path of
             None \<Rightarrow> Some a
           | Some items \<Rightarrow>
               add_items n fs directory_path (sort items)
                 (a\<lparr>expanded := expanded a @ [directory_path]\<rparr>))"
| "add_items n fs directory_path [] a = Some a"
| "add_items n fs directory_path (item # items) a =
     (let path = join_path directory_path item
      in if filters_match a path then add_items n fs directory_path items a
         else case samefile fs directory_path path of
                None \<Rightarrow> add_items n fs directory_path items a
              | Some True \<Rightarrow> add_items n fs directory_path items a
              | Some False \<Rightarrow>
                  (let child_real = realpath fs path
                   in if child_real \<in> visited_dirs a \<and> path_isdir fs path
                      then add_items n fs directory_path items a
                      else if path_isdir fs path then
                        (let a2 = (register_node path True a)
                                    \<lparr>visited_dirs := insert child_real (visited_dirs a)\<rparr>
                         in if \<not> is_potentially_problematic_path fs path
                            then (case add_directory_contents n fs path a2 of
                                    None \<Rightarrow> None
                                  | Some a3 \<Rightarrow> add_items n fs directory_path items a3)
                            else add_items n fs directory_path items a2)
                      else add_items n fs directory_path items (register_node path False a)))"

text \<open>
  \<open>build_tree_for\<close>. Its \<open>except Exception\<close> branch (the access-error
  placeholder) is not reached here: none of the operations above raises.
\<close>

definition build_tree_for :: "nat \<Rightarrow> filesys \<Rightarrow> string \<Rightarrow> app \<Rightarrow> app option" where
  "build_tree_for n fs folder a =
     (if \<not> check_folder_access_with_timeout fs folder then Some a
      else let realp = realpath fs folder
           in if realp \<in> visited_dirs a then Some a
              else let a1 = a\<lparr>visited_dirs := insert realp (visited_dirs a)\<rparr>;
                       a2 = (if folder \<notin> tree_keys a1 then register_node folder True a1 else a1)
                   in add_directory_contents n fs folder a2)"

fun build_roots :: "nat \<Rightarrow> filesys \<Rightarrow> string list \<Rightarrow> app \<Rightarrow> app option" where
  "build_roots n fs [] a = Some a"
| "build_roots n fs (folder # folders) a =
     (if \<not> path_exists fs folder then build_roots n fs folders a
      else case build_tree_for n fs folder a of
             None \<Rightarrow> None
           | Some a1 \<Rightarrow> build_roots n fs folders a1)"

text \<open>
  \<open>apply_saved_checks\<close>: the loop over \<open>saved_folder_checks.items()\<close>, then
  three timers: the tree view is expanded after 100 ms, the saved checks are applied a
  second time after 500 ms (\<open>_delayed_apply_remaining_checks\<close>) and cleared after 2 s
  (\<open>_clear_saved_checks\<close>). The saved checks themselves are kept until then.
\<close>

definition set_checked :: "string \<Rightarrow> bool \<Rightarrow> (string \<times> node) list \<Rightarrow> (string \<times> node) list" where
  "set_checked path v t = map (\<lambda>(k, n). if k = path then (k, n\<lparr>checked := v\<rparr>) else (k, n)) t"

fun apply_checks :: "(string \<times> bool) list \<Rightarrow> app \<Rightarrow> app" where
  "apply_checks [] a = a"
| "apply_checks ((path, c) # rest) a =
     (if path \<in> tree_keys a \<and> \<not> filters_match a path
      then apply_checks rest (a\<lparr>folder_tree_data := set_checked path c (folder_tree_data a)\<rparr>)
      else apply_checks rest a)"

definition after_apply_timers :: "(nat \<times> callback) list" where
  "after_apply_timers =
     [(100, ExpandToShowSelected), (500, DelayedApplyRemainingChecks), (2000, ClearSavedChecks)]"

definition apply_saved_checks :: "app \<Rightarrow> app" where
  "apply_saved_checks a =
     (let a1 = apply_checks (saved_folder_checks a) a
      in a1\<lparr>timers := timers a1 @ after_apply_timers\<rparr>)"

text \<open>
  \<open>build_all_trees\<close>: clear the mapping, start a fresh \<open>visited_dirs\<close>, build
  each root that exists, apply the saved checks.
\<close>

definition clear_trees :: "app \<Rightarrow> app" where
  "clear_trees a = a\<lparr>folder_tree_data := [], visited_dirs := {}, expanded := []\<rparr>"

definition build_all_trees :: "nat \<Rightarrow> filesys \<Rightarrow> app \<Rightarrow> app option" where
  "build_all_trees n fs a =
     (case build_roots n fs (root_folders a) (clear_trees a) of
        None \<Rightarrow> None
      | Some a1 \<Rightarrow> Some (apply_saved_checks a1))"

section \<open>A small project tree\<close>

text \<open>
  The root \<open>/proj\<close> with \<open>/proj/.git/config\<close>, \<open>/proj/src/a.py\<close> and
  \<open>/proj/src/a.py~\<close>, no symbolic links, every path answering at once.
\<close>

definition proj_dirs :: "string list" where
  "proj_dirs = [''/proj'', ''/proj/.git'', ''/proj/src'']"

definition proj_files :: "string list" where
  "proj_files = [''/proj/.git/config'', ''/proj/src/a.py'', ''/proj/src/a.py~'']"

definition proj_fs :: filesys where
  "proj_fs =
     \<lparr>path_exists = (\<lambda>p. p \<in> set (proj_dirs @ proj_files)),
      path_isdir = (\<lambda>p. p \<in> set proj_dirs),
      path_islink = (\<lambda>p. False),
      listdir = map_of [(''/proj'', [''src'', ''.git'']), (''/proj/.git'', [''config'']),
                        (''/proj/src'', [''a.py~'', ''a.py''])],
      realpath = (\<lambda>p. p),
      samefile = (\<lambda>p q. if p \<in> set (proj_dirs @ proj_files) \<and> q \<in> set (proj_dirs @ proj_files)
                         then Some (p = q) else None),
      responds = (\<lambda>p. True)\<rparr>"

text \<open>
  The application with that root, the ignore patterns \<open>*/.git/*\<close> and \<open>*~\<close>,
  and every other setting as \<open>__init__\<close> leaves it.
\<close>

definition proj_app :: app where
  "proj_app =
     \<lparr>root_folders = [''/proj''], ignore_patterns = [''*/.git/*'', ''*~''],
      filter_system_folders = True, folder_tree_data = [], visited_dirs = {},
      saved_folder_checks = [], copy_entire_tree = False, enable_timeouts = True,
      current_profile = ''default'', timers = [], expanded = []\<rparr>"

section \<open>Auxiliary notions for the scanner\<close>

text \<open>
  Names for the tests and updates inside \<open>add_directory_contents\<close>: the access
  check before listing, the three reasons for which the loop passes over an item
  (ignored, same file as the parent or not comparable, directory already visited), and
  the state after registering a directory and marking it visited.
\<close>

definition can_list :: "filesys \<Rightarrow> string \<Rightarrow> bool" where
  "can_list fs d =
     (if is_potentially_problematic_path fs d then check_folder_access_with_timeout fs d
      else path_exists fs d \<and> path_isdir fs d)"

definition skips_item :: "filesys \<Rightarrow> app \<Rightarrow> string \<Rightarrow> string \<Rightarrow> bool" where
  "skips_item fs a d item =
     (filters_match a (join_path d item) \<or> samefile fs d (join_path d item) \<noteq> Some False \<or>
      (realpath fs (join_path d item) \<in> visited_dirs a \<and> path_isdir fs (join_path d item)))"

definition enter_dir :: "filesys \<Rightarrow> string \<Rightarrow> app \<Rightarrow> app" where
  "enter_dir fs path a =
     (register_node path True a)\<lparr>visited_dirs := insert (realpath fs path) (visited_dirs a)\<rparr>"

definition mark_expanded :: "string \<Rightarrow> app \<Rightarrow> app" where
  "mark_expanded d a = a\<lparr>expanded := expanded a @ [d]\<rparr>"

text \<open>
  What a scan leaves alone and what it only enlarges: the settings are the same, and
  \<open>visited_dirs\<close> and the keys of \<open>folder_tree_data\<close> only grow.
\<close>

definition same_settings :: "app \<Rightarrow> app \<Rightarrow> bool" where
  "same_settings a b =
     (root_folders b = root_folders a \<and> ignore_patterns b = ignore_patterns a \<and>
      filter_system_folders b = filter_system_folders a \<and>
      saved_folder_checks b = saved_folder_checks a \<and>
      copy_entire_tree b = copy_entire_tree a \<and> enable_timeouts b = enable_timeouts a \<and>
      current_profile b = current_profile a)"

definition scan_grows :: "app \<Rightarrow> app \<Rightarrow> bool" where
  "scan_grows a b =
     (same_settings a b \<and> visited_dirs a \<subseteq> visited_dirs b \<and> tree_keys a \<subseteq> tree_keys b)"

text \<open>
  \<open>listed_child fs a p\<close>: the path \<open>p\<close> is \<open>os.path.join(d, item)\<close> for a
  directory \<open>d\<close> that has an entry and an \<open>item\<close> that \<open>os.listdir(d)\<close>
  returns. \<open>entries_justified\<close>: every entry is a root folder, or is not ignored
  and is such a child.
\<close>

definition listed_child :: "filesys \<Rightarrow> app \<Rightarrow> string \<Rightarrow> bool" where
  "listed_child fs a p =
     (\<exists>d \<in> tree_keys a. \<exists>items. listdir fs d = Some items \<and>
        (\<exists>item \<in> set items. p = join_path d item))"

definition entries_justified :: "filesys \<Rightarrow> app \<Rightarrow> bool" where
  "entries_justified fs a =
     (\<forall>p \<in> tree_keys a.
        p \<in> set (root_folders a) \<or> (\<not> filters_match a p \<and> listed_child fs a p))"

section \<open>The incremental poller\<close>

text \<open>
  \<open>os.walk(top)\<close> of the Python standard library, top-down and without following
  symbolic links: one triple (directory, names of its subdirectories, names of its other
  entries) per directory it can list. The first argument bounds the depth.
\<close>

fun os_walk :: "nat \<Rightarrow> filesys \<Rightarrow> string \<Rightarrow> (string \<times> string list \<times> string list) list option"
  and walk_dirs :: "nat \<Rightarrow> filesys \<Rightarrow> string \<Rightarrow> string list \<Rightarrow>
                     (string \<times> string list \<times> string list) list option"
where
  "os_walk 0 fs topdir = None"
| "os_walk (Suc n) fs topdir =
     (case listdir fs topdir of
        None \<Rightarrow> Some []
      | Some names \<Rightarrow>
          (let dirs = filter (\<lambda>x. path_isdir fs (join_path topdir x)) names;
               nondirs = filter (\<lambda>x. \<not> path_isdir fs (join_path topdir x)) names
           in case walk_dirs n fs topdir dirs of
                None \<Rightarrow> None
              | Some below \<Rightarrow> Some ((topdir, dirs, nondirs) # below)))"
| "walk_dirs n fs topdir [] = Some []"
| "walk_dirs n fs topdir (dname # dirs) =
     (let new_path = join_path topdir dname
      in if \<not> path_islink fs new_path
         then (case os_walk n fs new_path of
                 None \<Rightarrow> None
               | Some here \<Rightarrow>
                   (case walk_dirs n fs topdir dirs of
                      None \<Rightarrow> None
                    | Some after \<Rightarrow> Some (here @ after)))
         else walk_dirs n fs topdir dirs)"

text \<open>
  \<open>poll_folder\<close> does not catch the \<open>OSError\<close> of \<open>os.path.samefile\<close>:
  a poll either returns or is cut short by it, and keeps in both cases the entries it
  has added so far.
\<close>

datatype poll_outcome = Returned app | Raised app

fun poll_state :: "poll_outcome \<Rightarrow> app" where
  "poll_state (Returned a) = a"
| "poll_state (Raised a) = a"

text \<open>
  \<open>if path not in self.folder_tree_data: ...\<close>: a new entry, unchecked, and its
  real path marked visited.
\<close>

definition add_polled :: "filesys \<Rightarrow> string \<Rightarrow> bool \<Rightarrow> app \<Rightarrow> app" where
  "add_polled fs path d a =
     (if path \<notin> tree_keys a
      then (register_node path d a)\<lparr>visited_dirs := insert (realpath fs path) (visited_dirs a)\<rparr>
      else a)"

text \<open>The loops \<open>for d in dirs\<close> and \<open>for f in files\<close> (\<open>d\<close> tells which).\<close>

fun poll_names :: "filesys \<Rightarrow> string \<Rightarrow> bool \<Rightarrow> string list \<Rightarrow> app \<Rightarrow> poll_outcome" where
  "poll_names fs rootp d [] a = Returned a"
| "poll_names fs rootp d (name # names) a =
     (let dpath = join_path rootp name;
          dreal = realpath fs dpath
      in if filters_match a dpath \<or> dreal \<in> visited_dirs a then poll_names fs rootp d names a
         else case samefile fs rootp dpath of
                None \<Rightarrow> Raised a
              | Some True \<Rightarrow> poll_names fs rootp d names a
              | Some False \<Rightarrow> poll_names fs rootp d names (add_polled fs dpath d a))"

text \<open>The loop over the triples that \<open>os.walk(folder)\<close> yields.\<close>

fun poll_walk :: "filesys \<Rightarrow> (string \<times> string list \<times> string list) list \<Rightarrow> app \<Rightarrow> poll_outcome" where
  "poll_walk fs [] a = Returned a"
| "poll_walk fs ((rootp, dirs, files) # triples_left) a =
     (if filters_match a rootp \<or> realpath fs rootp \<in> visited_dirs a then poll_walk fs triples_left a
      else case poll_names fs rootp True dirs (add_polled fs rootp True a) of
             Raised a1 \<Rightarrow> Raised a1
           | Returned a1 \<Rightarrow>
               (case poll_names fs rootp False files a1 of
                  Raised a2 \<Rightarrow> Raised a2
                | Returned a2 \<Rightarrow> poll_walk fs triples_left a2))"

fun poll_roots :: "nat \<Rightarrow> filesys \<Rightarrow> string list \<Rightarrow> app \<Rightarrow> poll_outcome option" where
  "poll_roots n fs [] a = Some (Returned a)"
| "poll_roots n fs (folder # folders) a =
     (if \<not> path_exists fs folder then poll_roots n fs folders a
      else case os_walk n fs folder of
             None \<Rightarrow> None
           | Some triples \<Rightarrow>
               (case poll_walk fs triples a of
                  Raised a1 \<Rightarrow> Some (Raised a1)
                | Returned a1 \<Rightarrow> poll_roots n fs folders a1))"

definition poll_folder :: "nat \<Rightarrow> filesys \<Rightarrow> app \<Rightarrow> poll_outcome option" where
  "poll_folder n fs a = poll_roots n fs (root_folders a) a"

text \<open>
  \<open>schedule_folder_poll\<close> polls and then re-arms its timer; a poll that raises leaves
  the timer unarmed, so no later poll runs. The list holds the filesystem as each
  successive poll finds it.
\<close>

fun schedule_folder_poll :: "nat \<Rightarrow> filesys list \<Rightarrow> app \<Rightarrow> app option" where
  "schedule_folder_poll n [] a = Some a"
| "schedule_folder_poll n (fs # later) a =
     (case poll_folder n fs a of
        None \<Rightarrow> None
      | Some (Raised a1) \<Rightarrow> Some a1
      | Some (Returned a1) \<Rightarrow> schedule_folder_poll n later a1)"


section \<open>A tree with a hidden directory\<close>

text \<open>The root \<open>/proj\<close> with the single file \<open>/proj/.cache/sub/x.txt\<close>.\<close>

definition cache_dirs :: "string list" where
  "cache_dirs = [''/proj'', ''/proj/.cache'', ''/proj/.cache/sub'']"

definition cache_files :: "string list" where
  "cache_files = [''/proj/.cache/sub/x.txt'']"

definition cache_fs :: filesys where
  "cache_fs =
     \<lparr>path_exists = (\<lambda>p. p \<in> set (cache_dirs @ cache_files)),
      path_isdir = (\<lambda>p. p \<in> set cache_dirs),
      path_islink = (\<lambda>p. False),
      listdir = map_of [(''/proj'', [''.cache'']), (''/proj/.cache'', [''sub'']),
                        (''/proj/.cache/sub'', [''x.txt''])],
      realpath = (\<lambda>p. p),
      samefile = (\<lambda>p q. if p \<in> set (cache_dirs @ cache_files) \<and> q \<in> set (cache_dirs @ cache_files)
                         then Some (p = q) else None),
      responds = (\<lambda>p. True)\<rparr>"

definition cache_app :: app where
  "cache_app = proj_app\<lparr>ignore_patterns := []\<rparr>"

text \<open>
  The weaker property that polling keeps as well: every entry is a root folder or is
  not ignored.
\<close>

definition unignored_or_root :: "app \<Rightarrow> bool" where
  "unignored_or_root a =
     (\<forall>p \<in> tree_keys a. p \<in> set (root_folders a) \<or> \<not> filters_match a p)"

definition poll_keeps :: "app \<Rightarrow> app \<Rightarrow> bool" where
  "poll_keeps a b = (same_settings a b \<and> (unignored_or_root a \<longrightarrow> unignored_or_root b))"


text \<open>
  The state after scanning \<open>/proj\<close> in that tree, and the state after one poll
  that follows the scan.
\<close>

definition cache_scanned :: app where
  "cache_scanned =
     cache_app\<lparr>folder_tree_data := [(''/proj'', \<lparr>checked = False, is_dir = True\<rparr>)],
               visited_dirs := {''/proj''}, timers := after_apply_timers,
               expanded := [''/proj'']\<rparr>"


text \<open>
  The invariant behind the visited set: the directories listed so far have pairwise
  different real paths, all of them in \<open>visited_dirs\<close>.
\<close>

definition expansions_once :: "filesys \<Rightarrow> app \<Rightarrow> bool" where
  "expansions_once fs a =
     (distinct (map (realpath fs) (expanded a)) \<and>
      realpath fs ` set (expanded a) \<subseteq> visited_dirs a)"

section \<open>A tree with a symbolic link to an ancestor\<close>

text \<open>
  The root \<open>/proj\<close> holds the directory \<open>a\<close>, and \<open>/proj/a/up\<close> is a
  symbolic link to \<open>/proj\<close>: every path \<open>/proj/a/up/a/up/...\<close> names one of the
  two directories. \<open>cyc_realpath\<close> resolves the link.
\<close>

lemma startswith_length: "startswith s p \<Longrightarrow> length p \<le> length s"
proof -
  assume "startswith s p"
  then have "length (take (length p) s) = length p" by (simp add: startswith_def)
  then show ?thesis by simp
qed

function cyc_realpath :: "string \<Rightarrow> string" where
  "cyc_realpath p =
     (if p = ''/proj/a/up'' \<or> startswith p ''/proj/a/up/''
      then cyc_realpath (''/proj'' @ drop 10 p)
      else p)"
  by pat_completeness auto
termination
  by (relation "measure length") (auto dest!: startswith_length)

definition cyc_fs :: filesys where
  "cyc_fs =
     \<lparr>path_exists = (\<lambda>p. cyc_realpath p \<in> {''/proj'', ''/proj/a''}),
      path_isdir = (\<lambda>p. cyc_realpath p \<in> {''/proj'', ''/proj/a''}),
      path_islink = (\<lambda>p. endswith p ''/up'' \<and> cyc_realpath p = ''/proj''),
      listdir = (\<lambda>p. if cyc_realpath p = ''/proj'' then Some [''a'']
                      else if cyc_realpath p = ''/proj/a'' then Some [''up'']
                      else None),
      realpath = cyc_realpath,
      samefile = (\<lambda>p q. if cyc_realpath p \<in> {''/proj'', ''/proj/a''} \<and>
                            cyc_realpath q \<in> {''/proj'', ''/proj/a''}
                         then Some (cyc_realpath p = cyc_realpath q) else None),
      responds = (\<lambda>p. True)\<rparr>"

section \<open>Saving and loading the settings\<close>

text \<open>
  The persisted configuration, with the keys that the scanner and the watchdog depend
  on; the other keys (\<open>user_instructions\<close>, \<open>meta_prompts\<close>, \<open>dark_mode\<close>,
  the hotkey settings, \<open>strip_comments\<close>, \<open>selection_presets\<close>) are carried along
  the same way and touch nothing here.
\<close>

record config =
  cfg_root_folders :: "string list"
  cfg_folder_checks :: "(string \<times> bool) list"
  cfg_ignore_patterns :: "string list"
  cfg_copy_entire_tree :: bool
  cfg_filter_system_folders :: bool
  cfg_enable_timeouts :: bool

text \<open>
  \<open>for path, info in self.folder_tree_data.items():
  data["folder_checks"][path] = info['checked']\<close>
\<close>

fun collect_checks :: "(string \<times> node) list \<Rightarrow> (string \<times> bool) list \<Rightarrow> (string \<times> bool) list" where
  "collect_checks [] acc = acc"
| "collect_checks ((path, info) # rest) acc =
     collect_checks rest (AList.update path (checked info) acc)"

definition settings_data :: "app \<Rightarrow> config" where
  "settings_data a =
     \<lparr>cfg_root_folders = root_folders a,
      cfg_folder_checks = collect_checks (folder_tree_data a) [],
      cfg_ignore_patterns = ignore_patterns a,
      cfg_copy_entire_tree = copy_entire_tree a,
      cfg_filter_system_folders = filter_system_folders a,
      cfg_enable_timeouts = enable_timeouts a\<rparr>"

text \<open>
  \<open>save_settings\<close> writes the data to \<open>CONFIG_FILE\<close> for the default profile and
  to the profile's own file otherwise (\<open>save_profile\<close>, with the same data): the
  files are a map from profile names to their contents.
\<close>

definition save_settings :: "app \<Rightarrow> (string \<rightharpoonup> config) \<Rightarrow> (string \<rightharpoonup> config)" where
  "save_settings a files = files(current_profile a \<mapsto> settings_data a)"

text \<open>
  \<open>load_settings\<close> where the configuration file exists and can be read: the tree,
  the saved checks and the visited set are cleared, the settings are taken from the file,
  and the tree is rebuilt. (Without a file the source writes defaults instead; that
  branch is \<open>None\<close> here, as is a scan that exceeds the depth bound.)
\<close>

definition read_settings :: "config \<Rightarrow> app \<Rightarrow> app" where
  "read_settings data a =
     a\<lparr>folder_tree_data := [], saved_folder_checks := cfg_folder_checks data,
       visited_dirs := {},
       root_folders := cfg_root_folders data,
       ignore_patterns := cfg_ignore_patterns data,
       copy_entire_tree := cfg_copy_entire_tree data,
       filter_system_folders := cfg_filter_system_folders data,
       enable_timeouts := cfg_enable_timeouts data\<rparr>"

definition load_settings :: "nat \<Rightarrow> filesys \<Rightarrow> (string \<rightharpoonup> config) \<Rightarrow> app \<Rightarrow> app option" where
  "load_settings n fs files a =
     (case files (current_profile a) of
        None \<Rightarrow> None
      | Some data \<Rightarrow> build_all_trees n fs (read_settings data a))"

text \<open>\<open>self.folder_tree_data[p]['checked']\<close>, false for a path without an entry.\<close>

definition is_checked :: "app \<Rightarrow> string \<Rightarrow> bool" where
  "is_checked a p = (case map_of (folder_tree_data a) p of Some info \<Rightarrow> checked info | None \<Rightarrow> False)"

text \<open>
  \<open>_delayed_apply_remaining_checks\<close>, the callback of the 500 ms timer: a saved
  path that has an entry by then, whose checked state differs from the saved one and
  which is not ignored, gets the saved state. \<open>_clear_saved_checks\<close>, the callback
  of the 2 s timer, empties the saved checks. The third callback only expands the tree
  view.
\<close>

fun delayed_checks :: "(string \<times> bool) list \<Rightarrow> app \<Rightarrow> app" where
  "delayed_checks [] a = a"
| "delayed_checks ((path, c) # rest) a =
     (if path \<notin> tree_keys a then delayed_checks rest a
      else if is_checked a path \<noteq> c then
        (if \<not> filters_match a path
         then delayed_checks rest
                (a\<lparr>folder_tree_data := set_checked path c (folder_tree_data a)\<rparr>)
         else delayed_checks rest a)
      else delayed_checks rest a)"

definition delayed_apply_remaining_checks :: "app \<Rightarrow> app" where
  "delayed_apply_remaining_checks a = delayed_checks (saved_folder_checks a) a"

definition clear_saved_checks :: "app \<Rightarrow> app" where
  "clear_saved_checks a = a\<lparr>saved_folder_checks := []\<rparr>"

fun run_callback :: "callback \<Rightarrow> app \<Rightarrow> app" where
  "run_callback ExpandToShowSelected a = a"
| "run_callback DelayedApplyRemainingChecks a = delayed_apply_remaining_checks a"
| "run_callback ClearSavedChecks a = clear_saved_checks a"

definition all_unchecked :: "app \<Rightarrow> bool" where
  "all_unchecked a = (\<forall>p. \<not> is_checked a p)"

text \<open>
  The project of the scenario with some entries checked, one of them for a file that is
  gone from the disk, and the state after saving this and loading it again.
\<close>

definition proj_checked :: app where
  "proj_checked =
     proj_app\<lparr>folder_tree_data :=
                [(''/proj'', \<lparr>checked = False, is_dir = True\<rparr>),
                 (''/proj/src'', \<lparr>checked = True, is_dir = True\<rparr>),
                 (''/proj/src/a.py'', \<lparr>checked = True, is_dir = False\<rparr>),
                 (''/proj/old.txt'', \<lparr>checked = True, is_dir = False\<rparr>)]\<rparr>"

definition proj_reloaded :: app where
  "proj_reloaded =
     proj_app\<lparr>folder_tree_data :=
                [(''/proj'', \<lparr>checked = False, is_dir = True\<rparr>),
                 (''/proj/src'', \<lparr>checked = True, is_dir = True\<rparr>),
                 (''/proj/src/a.py'', \<lparr>checked = True, is_dir = False\<rparr>)],
              saved_folder_checks :=
                [(''/proj'', False), (''/proj/src'', True), (''/proj/src/a.py'', True),
                 (''/proj/old.txt'', True)],
              visited_dirs := {''/proj/src'', ''/proj''},
              timers := after_apply_timers,
              expanded := [''/proj'', ''/proj/src'']\<rparr>"

section \<open>Validation and export\<close>

text \<open>
  \<open>validate_checked_items\<close>: the first loop unchecks the checked entries that match
  the filters and collects the others as visible; the second unchecks what is checked
  and not visible.
\<close>

definition uncheck :: "string \<Rightarrow> app \<Rightarrow> app" where
  "uncheck path a = a\<lparr>folder_tree_data := set_checked path False (folder_tree_data a)\<rparr>"

fun hide_filtered :: "string list \<Rightarrow> app \<Rightarrow> string set \<Rightarrow> app \<times> string set" where
  "hide_filtered [] a visible_paths = (a, visible_paths)"
| "hide_filtered (path # rest) a visible_paths =
     (if filters_match a path
      then (if path \<in> tree_keys a \<and> is_checked a path
            then hide_filtered rest (uncheck path a) visible_paths
            else hide_filtered rest a visible_paths)
      else hide_filtered rest a (insert path visible_paths))"

fun uncheck_invisible :: "string list \<Rightarrow> string set \<Rightarrow> app \<Rightarrow> app" where
  "uncheck_invisible [] visible_paths a = a"
| "uncheck_invisible (path # rest) visible_paths a =
     (if path \<notin> visible_paths \<and> is_checked a path
      then uncheck_invisible rest visible_paths (uncheck path a)
      else uncheck_invisible rest visible_paths a)"

definition validate_checked_items :: "app \<Rightarrow> app" where
  "validate_checked_items a =
     (case hide_filtered (map fst (folder_tree_data a)) a {} of
        (a1, visible_paths) \<Rightarrow>
          uncheck_invisible (map fst (folder_tree_data a1)) visible_paths a1)"

text \<open>
  The file tree of an export is text, one line per entry. A line is kept here as the
  path it stands for: \<open>PathLine p\<close> is a line that shows the path \<open>p\<close> in full,
  \<open>ChildLine p\<close> an indented line that shows the base name of \<open>p\<close> after a branch
  mark, \<open>Notice\<close> one of the two fixed messages.
\<close>

datatype tree_line = Notice string | PathLine string | ChildLine string


definition node_is_dir :: "app \<Rightarrow> string \<Rightarrow> bool" where
  "node_is_dir a p = (case map_of (folder_tree_data a) p of Some info \<Rightarrow> is_dir info | None \<Rightarrow> False)"

text \<open>
  \<open>build_checked_file_tree_text\<close>: each checked directory, followed by the checked
  files directly inside it (which are taken off the list), then the checked files that
  are left.
\<close>

fun checked_dir_lines :: "string list \<Rightarrow> string list \<Rightarrow> tree_line list \<times> string list" where
  "checked_dir_lines [] checked_files = ([], checked_files)"
| "checked_dir_lines (dir_path # dirs) checked_files =
     (let child_files = sort (filter (\<lambda>f. dirname f = dir_path) checked_files);
          remaining = fold remove1 child_files checked_files
      in case checked_dir_lines dirs remaining of
           (lines, left) \<Rightarrow> (PathLine dir_path # map ChildLine child_files @ lines, left))"

definition build_checked_file_tree_text :: "app \<Rightarrow> tree_line list" where
  "build_checked_file_tree_text a =
     (if root_folders a = [] then [Notice ''No folders selected.'']
      else let checked_paths = map fst (filter (\<lambda>(path, info). checked info) (folder_tree_data a))
           in if checked_paths = [] then [Notice ''(No items selected)'']
              else let sorted_paths = sort checked_paths;
                       checked_dirs = filter (node_is_dir a) sorted_paths;
                       checked_files = filter (\<lambda>p. \<not> node_is_dir a p) sorted_paths
                   in case checked_dir_lines checked_dirs checked_files of
                        (lines, left) \<Rightarrow> lines @ map PathLine left)"

text \<open>
  \<open>build_full_file_tree_text\<close> and its local \<open>recurse\<close>: every entry below a root
  folder that exists and has an entry, checked or not. The first argument bounds the
  depth of \<open>recurse\<close>.
\<close>

fun recurse :: "nat \<Rightarrow> app \<Rightarrow> bool \<Rightarrow> string \<Rightarrow> tree_line list option"
  and recurse_items :: "nat \<Rightarrow> app \<Rightarrow> string list \<Rightarrow> tree_line list option"
where
  "recurse 0 a outermost path = None"
| "recurse (Suc n) a outermost path =
     (let children = filter (\<lambda>p. dirname p = path) (map fst (folder_tree_data a));
          subdirs = sort (filter (node_is_dir a) children);
          subfiles = sort (filter (\<lambda>c. \<not> node_is_dir a c) children)
      in case recurse_items n a (subdirs @ subfiles) of
           None \<Rightarrow> None
         | Some lines \<Rightarrow> Some ((if outermost then PathLine path else ChildLine path) # lines))"
| "recurse_items n a [] = Some []"
| "recurse_items n a (child # all_items) =
     (if node_is_dir a child
      then (case recurse n a False child of
              None \<Rightarrow> None
            | Some lines \<Rightarrow>
                (case recurse_items n a all_items of
                   None \<Rightarrow> None
                 | Some after \<Rightarrow> Some (lines @ after)))
      else (case recurse_items n a all_items of
              None \<Rightarrow> None
            | Some after \<Rightarrow> Some (ChildLine child # after)))"

fun full_tree_roots :: "nat \<Rightarrow> filesys \<Rightarrow> app \<Rightarrow> string list \<Rightarrow> tree_line list option" where
  "full_tree_roots n fs a [] = Some []"
| "full_tree_roots n fs a (rf # rest) =
     (if path_exists fs rf \<and> rf \<in> tree_keys a
      then (case recurse n a True rf of
              None \<Rightarrow> None
            | Some lines \<Rightarrow>
                (case full_tree_roots n fs a rest of
                   None \<Rightarrow> None
                 | Some after \<Rightarrow> Some (lines @ after)))
      else full_tree_roots n fs a rest)"

definition build_full_file_tree_text :: "nat \<Rightarrow> filesys \<Rightarrow> app \<Rightarrow> tree_line list option" where
  "build_full_file_tree_text n fs a =
     (if root_folders a = [] then Some [Notice ''No folders selected.'']
      else full_tree_roots n fs a (root_folders a))"

text \<open>
  \<open>build_file_contents_text\<close>: the checked files, sorted; the text holds the contents
  of each under its path.
\<close>

definition build_file_contents_text :: "app \<Rightarrow> string list" where
  "build_file_contents_text a =
     sort (map fst (filter (\<lambda>(path, info). checked info \<and> \<not> is_dir info) (folder_tree_data a)))"

text \<open>
  \<open>on_copy_to_clipboard\<close> up to the text it assembles (\<open>on_copy_to_temp_file\<close>
  builds the same blocks in the same order): validation, then the file tree, whole or
  checked only, then the file contents.
\<close>

record export =
  exp_state :: app
  exp_file_tree :: "tree_line list"
  exp_file_contents :: "string list"

definition on_copy_to_clipboard :: "nat \<Rightarrow> filesys \<Rightarrow> app \<Rightarrow> export option" where
  "on_copy_to_clipboard n fs a =
     (let a1 = validate_checked_items a
      in case (if copy_entire_tree a1 then build_full_file_tree_text n fs a1
               else Some (build_checked_file_tree_text a1)) of
           None \<Rightarrow> None
         | Some file_tree_block \<Rightarrow>
             Some \<lparr>exp_state = a1, exp_file_tree = file_tree_block,
                   exp_file_contents = build_file_contents_text a1\<rparr>)"

text \<open>
  The project with a checked backup file that the pattern \<open>*~\<close> ignores, and the
  scanned tree of the hidden root with the whole-tree option on.
\<close>

definition stale_app :: app where
  "stale_app =
     proj_app\<lparr>folder_tree_data :=
                [(''/proj'', \<lparr>checked = False, is_dir = True\<rparr>),
                 (''/proj/src'', \<lparr>checked = True, is_dir = True\<rparr>),
                 (''/proj/src/a.py'', \<lparr>checked = True, is_dir = False\<rparr>),
                 (''/proj/src/a.py~'', \<lparr>checked = True, is_dir = False\<rparr>),
                 (''/proj/notes.txt'', \<lparr>checked = True, is_dir = False\<rparr>)]\<rparr>"



section \<open>The loading dialog\<close>

text \<open>
  \<open>LoadingDialog.cancelled\<close> is \<open>False\<close> at first and then one of the strings
  \<open>"skip"\<close>, \<open>"cancel"\<close>, \<open>"disable_timeouts"\<close>, stored by the handler of the
  button pressed. \<open>on_disable_timeouts\<close> also takes its own button off the dialog and
  relabels the other two, which stay.
\<close>

datatype cancel_state = NotCancelled | Skip | Cancel | DisableTimeouts

record loading_dialog =
  cancelled :: cancel_state
  status_text :: string
  skip_button_text :: string
  cancel_button_text :: string
  disable_timeout_button_shown :: bool

definition new_dialog :: loading_dialog where
  "new_dialog =
     \<lparr>cancelled = NotCancelled, status_text = [],
      skip_button_text = ''Skip This Profile'',
      cancel_button_text = ''Cancel & Use Default'', disable_timeout_button_shown = True\<rparr>"

definition on_skip :: "loading_dialog \<Rightarrow> loading_dialog" where
  "on_skip d = d\<lparr>cancelled := Skip, status_text := ''Skipping current profile...''\<rparr>"

definition on_cancel :: "loading_dialog \<Rightarrow> loading_dialog" where
  "on_cancel d =
     d\<lparr>cancelled := Cancel, status_text := ''Cancelling and using default profile...''\<rparr>"

definition on_disable_timeouts :: "loading_dialog \<Rightarrow> loading_dialog" where
  "on_disable_timeouts d =
     d\<lparr>cancelled := DisableTimeouts,
       status_text := ''Timeouts disabled - loading will continue without time limits...'',
       disable_timeout_button_shown := False,
       skip_button_text := ''Continue in Background'',
       cancel_button_text := ''Cancel & Use Default''\<rparr>"

definition is_cancelled :: "loading_dialog \<Rightarrow> bool" where
  "is_cancelled d = (cancelled d \<noteq> NotCancelled)"

definition get_cancel_type :: "loading_dialog \<Rightarrow> cancel_state" where
  "get_cancel_type d = cancelled d"

text \<open>
  A press of a button runs its handler; the button that disables the timeouts cannot
  be pressed once it is off the dialog.
\<close>

datatype click = ClickSkip | ClickCancel | ClickDisableTimeouts

fun press :: "click \<Rightarrow> loading_dialog \<Rightarrow> loading_dialog" where
  "press ClickSkip d = on_skip d"
| "press ClickCancel d = on_cancel d"
| "press ClickDisableTimeouts d = (if disable_timeout_button_shown d then on_disable_timeouts d else d)"

section \<open>The thread-based watchdogs\<close>

text \<open>
  \<open>load_settings_windows_timeout_with_dialog\<close> starts the loading thread and polls it
  in a loop. What one pass of the loop finds is a \<open>poll\<close>: whether the thread is
  alive, whether \<open>master.update()\<close> returns (it raises when the window is gone), the
  buttons pressed while it ran, the value that the loading thread has stored into
  \<open>enable_timeouts\<close> since the last pass (it does so when it reads the configuration),
  and the clock. Times are seconds. The dialog exists whenever the source calls this
  function.
\<close>

definition FOLDER_LOADING_TIMEOUT :: real where
  "FOLDER_LOADING_TIMEOUT = 60"

record poll =
  thread_alive :: bool
  window_ok :: bool
  clicks :: "click list"
  worker_enable_timeouts :: "bool option"
  now :: real

text \<open>
  The state the loop works on: the application, the dialog, the local
  \<open>timeouts_disabled\<close> and the \<open>cancel_flag\<close> event.
\<close>

record watch =
  w_app :: app
  w_dialog :: loading_dialog
  timeouts_disabled :: bool
  cancel_flag :: bool

datatype loop_exit = ThreadDone | Broke | RaisedTimeout | StillPolling

definition worker_step :: "poll \<Rightarrow> watch \<Rightarrow> watch" where
  "worker_step p s =
     (case worker_enable_timeouts p of
        None \<Rightarrow> s
      | Some v \<Rightarrow> s\<lparr>w_app := (w_app s)\<lparr>enable_timeouts := v\<rparr>\<rparr>)"

definition ui_step :: "poll \<Rightarrow> watch \<Rightarrow> watch" where
  "ui_step p s = s\<lparr>w_dialog := fold press (clicks p) (w_dialog s)\<rparr>"

fun monitor_loop :: "real \<Rightarrow> poll list \<Rightarrow> watch \<Rightarrow> loop_exit \<times> watch" where
  "monitor_loop start_time [] s = (StillPolling, s)"
| "monitor_loop start_time (p # later) s =
     (let s0 = worker_step p s
      in if \<not> thread_alive p then (ThreadDone, s0)
         else if \<not> window_ok p then (Broke, s0)
         else
           (let s1 = ui_step p s0;
                s2 = (if is_cancelled (w_dialog s1) \<and> get_cancel_type (w_dialog s1) = DisableTimeouts
                      then s1\<lparr>timeouts_disabled := True,
                              w_app := (w_app s1)\<lparr>enable_timeouts := False\<rparr>\<rparr>
                      else s1)
            in if is_cancelled (w_dialog s1) \<and>
                  get_cancel_type (w_dialog s1) \<in> {Skip, Cancel}
               then (Broke, s1\<lparr>cancel_flag := True\<rparr>)
               else if \<not> timeouts_disabled s2 \<and> enable_timeouts (w_app s2) \<and>
                       now p - start_time > FOLDER_LOADING_TIMEOUT
               then (RaisedTimeout, s2\<lparr>cancel_flag := True\<rparr>)
               else monitor_loop start_time later s2))"

text \<open>
  After the loop the thread is joined, for one second when the budget is still
  enforced and without limit otherwise; \<open>join_obs\<close> says whether the thread
  finishes during the join and whether it has raised. \<open>NeverReturns\<close>: an
  unlimited join on a thread that does not finish. \<open>Polling\<close>: the polls given are
  used up and the loop goes on.
\<close>

datatype load_error = TimedOutError | UserCancelledError | WorkerError

datatype load_result = Loaded | Failed load_error | NeverReturns | Polling

record join_obs =
  finishes_in_join :: bool
  worker_raised :: bool

definition after_loop :: "loop_exit \<Rightarrow> join_obs \<Rightarrow> watch \<Rightarrow> load_result \<times> watch" where
  "after_loop ex j s =
     (let bounded = (enable_timeouts (w_app s) \<and> \<not> timeouts_disabled s);
          finished = (ex = ThreadDone \<or> finishes_in_join j)
      in if \<not> bounded \<and> \<not> finished then (NeverReturns, s)
         else if is_cancelled (w_dialog s) \<and> get_cancel_type (w_dialog s) \<noteq> DisableTimeouts
         then (Failed UserCancelledError, s)
         else if \<not> finished \<and> enable_timeouts (w_app s) \<and> \<not> timeouts_disabled s
         then (Failed TimedOutError, s\<lparr>cancel_flag := True\<rparr>)
         else if worker_raised j then (Failed WorkerError, s)
         else (Loaded, s))"

definition start_watch :: "app \<Rightarrow> loading_dialog \<Rightarrow> watch" where
  "start_watch a d = \<lparr>w_app = a, w_dialog = d, timeouts_disabled = False, cancel_flag = False\<rparr>"

definition load_settings_windows_timeout_with_dialog ::
    "real \<Rightarrow> poll list \<Rightarrow> join_obs \<Rightarrow> app \<Rightarrow> loading_dialog \<Rightarrow> load_result \<times> watch" where
  "load_settings_windows_timeout_with_dialog start_time polls j a d =
     (case monitor_loop start_time polls (start_watch a d) of
        (StillPolling, s) \<Rightarrow> (Polling, s)
      | (RaisedTimeout, s) \<Rightarrow> (Failed TimedOutError, s)
      | (ex, s) \<Rightarrow> after_loop ex j s)"

text \<open>
  \<open>_monitor_thread_non_blocking\<close> is one poll per call and re-arms itself with
  \<open>master.after(100, ...)\<close>; a \<open>tick\<close> is what one call finds. It returns the
  callback it ends with (or that it is re-armed), the timeout it passes on, the dialog
  and the cancel flag.
\<close>

record tick =
  t_thread_alive :: bool
  t_clicks :: "click list"
  t_worker_raised :: bool
  t_now :: real

datatype monitor_result = OnSuccess | OnError load_error | Rescheduled

text \<open>
  \<open>update_status\<close> of the dialog, and the message of the grace period,
  \<open>f"Taking longer than expected... {remaining}s remaining"\<close> with
  \<open>remaining = int((timeout_seconds + 30) - elapsed_time)\<close>, a number written in
  decimal.
\<close>

definition update_status :: "string \<Rightarrow> loading_dialog \<Rightarrow> loading_dialog" where
  "update_status text d = d\<lparr>status_text := text\<rparr>"

function decimal :: "nat \<Rightarrow> string" where
  "decimal n =
     (if n < 10 then [''0123456789'' ! n]
      else decimal (n div 10) @ [''0123456789'' ! (n mod 10)])"
  by pat_completeness auto
termination
  by (relation "measure id") auto

definition grace_status :: "real \<Rightarrow> real \<Rightarrow> loading_dialog \<Rightarrow> loading_dialog" where
  "grace_status limit elapsed_time d =
     update_status
       (''Taking longer than expected... '' @
        decimal (nat \<lfloor>(limit + 30) - elapsed_time\<rfloor>) @ ''s remaining'') d"

fun monitor_thread_non_blocking ::
    "real \<Rightarrow> real option \<Rightarrow> tick list \<Rightarrow> loading_dialog \<Rightarrow> bool \<Rightarrow>
     monitor_result \<times> real option \<times> loading_dialog \<times> bool" where
  "monitor_thread_non_blocking start_time timeout_seconds [] d flag =
     (Rescheduled, timeout_seconds, d, flag)"
| "monitor_thread_non_blocking start_time timeout_seconds (t # later) d flag =
     (let d1 = fold press (t_clicks t) d
      in if t_thread_alive t then
           (if is_cancelled d1 \<and> get_cancel_type d1 \<in> {Skip, Cancel}
            then (OnError UserCancelledError, timeout_seconds, d1, True)
            else
              (let timeout1 = (if is_cancelled d1 \<and> get_cancel_type d1 = DisableTimeouts
                               then None else timeout_seconds);
                   elapsed_time = t_now t - start_time
               in case timeout1 of
                    None \<Rightarrow> monitor_thread_non_blocking start_time timeout1 later d1 flag
                  | Some limit \<Rightarrow>
                      if elapsed_time > limit
                      then (if elapsed_time < limit + 30
                            then monitor_thread_non_blocking start_time timeout1 later
                                   (grace_status limit elapsed_time d1) flag
                            else (OnError TimedOutError, timeout1, d1, True))
                      else monitor_thread_non_blocking start_time timeout1 later d1 flag))
         else if t_worker_raised t then (OnError WorkerError, timeout_seconds, d1, flag)
         else (OnSuccess, timeout_seconds, d1, flag))"

text \<open>
  Polls of a thread that is alive: one during which the operator disables the timeouts,
  one during which the operator presses the skip button, and one without any press at
  a given time.
\<close>

definition poll_disable :: poll where
  "poll_disable =
     \<lparr>thread_alive = True, window_ok = True, clicks = [ClickDisableTimeouts],
      worker_enable_timeouts = None, now = 5\<rparr>"

definition poll_skip :: poll where
  "poll_skip =
     \<lparr>thread_alive = True, window_ok = True, clicks = [ClickSkip],
      worker_enable_timeouts = None, now = 8\<rparr>"

definition poll_quiet :: "real \<Rightarrow> poll" where
  "poll_quiet t =
     \<lparr>thread_alive = True, window_ok = True, clicks = [],
      worker_enable_timeouts = None, now = t\<rparr>"

text \<open>
  A call of the non-blocking monitor that finds the thread alive and no button pressed,
  and a join in which the thread does not finish.
\<close>

definition quiet_tick :: "real \<Rightarrow> tick" where
  "quiet_tick t = \<lparr>t_thread_alive = True, t_clicks = [], t_worker_raised = False, t_now = t\<rparr>"

definition nobody_home :: join_obs where
  "nobody_home = \<lparr>finishes_in_join = False, worker_raised = False\<rparr>"

section \<open>The fallback selection\<close>

text \<open>
  What \<open>find_working_fallback_profile\<close> reads from the disk: \<open>CONFIG_FILE\<close> (the
  default profile), whether the profiles directory exists, the names of the
  \<open>.json\<close> files in it (without the extension; listing the directory is taken to
  succeed) and those files. A file is missing, or cannot be opened and parsed, or
  yields its \<open>root_folders\<close>.
\<close>

datatype profile_file = Missing | Unreadable | Settings "string list"

record profile_store =
  config_file :: profile_file
  profiles_dir_exists :: bool
  profile_names :: "string list"
  profile_files :: "string \<Rightarrow> profile_file"

definition get_available_profiles :: "profile_store \<Rightarrow> string list" where
  "get_available_profiles st =
     sort (''default'' # (if profiles_dir_exists st then profile_names st else []))"

definition profile_path_file :: "profile_store \<Rightarrow> string \<Rightarrow> profile_file" where
  "profile_path_file st profile_name =
     (if profile_name \<noteq> ''default'' then profile_files st profile_name else config_file st)"

text \<open>The inner loop: \<open>for folder in root_folders: if ...: has_problematic_paths = True; break\<close>.\<close>

fun has_problematic_paths :: "filesys \<Rightarrow> string list \<Rightarrow> bool" where
  "has_problematic_paths fs [] = False"
| "has_problematic_paths fs (folder # folders) =
     (if is_potentially_problematic_path fs folder then True
      else has_problematic_paths fs folders)"

text \<open>
  The loop over the profiles in order of preference. An exception while a profile is
  checked is caught and the loop goes on; after the loop the answer is
  \<open>"default"\<close>.
\<close>

fun try_profiles :: "filesys \<Rightarrow> profile_store \<Rightarrow> string \<Rightarrow> string list \<Rightarrow> string" where
  "try_profiles fs st failed [] = ''default''"
| "try_profiles fs st failed (profile_name # others) =
     (if profile_name = failed then try_profiles fs st failed others
      else if profile_name = ''default'' \<and> config_file st = Missing then ''default''
      else case profile_path_file st profile_name of
             Missing \<Rightarrow> try_profiles fs st failed others
           | Unreadable \<Rightarrow> try_profiles fs st failed others
           | Settings folders \<Rightarrow>
               if \<not> has_problematic_paths fs folders then profile_name
               else try_profiles fs st failed others)"

definition find_working_fallback_profile :: "filesys \<Rightarrow> profile_store \<Rightarrow> string \<Rightarrow> string" where
  "find_working_fallback_profile fs st current =
     try_profiles fs st current
       (''default'' # filter (\<lambda>p. p \<noteq> ''default'') (get_available_profiles st))"

text \<open>
  The selection in the words of the specification: a candidate qualifies when its root
  folders contain no path that the classifier flags (the default profile without a file
  has none; a profile whose file cannot be read has no root folders to offer), and
  \<open>ChooseFallback\<close> is the first qualifying candidate other than the failed one, the
  default profile ranked first, or the default profile when there is none.
\<close>

definition qualifies :: "filesys \<Rightarrow> profile_store \<Rightarrow> string \<Rightarrow> bool" where
  "qualifies fs st profile_name =
     (case profile_path_file st profile_name of
        Missing \<Rightarrow> profile_name = ''default''
      | Unreadable \<Rightarrow> False
      | Settings folders \<Rightarrow>
          \<not> (\<exists>folder \<in> set folders. is_potentially_problematic_path fs folder))"

definition ChooseFallback :: "filesys \<Rightarrow> profile_store \<Rightarrow> string list \<Rightarrow> string \<Rightarrow> string" where
  "ChooseFallback fs st candidates failed =
     (case find (\<lambda>p. p \<noteq> failed \<and> qualifies fs st p)
             (''default'' # filter (\<lambda>p. p \<noteq> ''default'') candidates) of
        Some p \<Rightarrow> p
      | None \<Rightarrow> ''default'')"

text \<open>
  A store with a default profile on a network share and two named profiles, and a
  store with that default profile alone.
\<close>

definition two_profiles :: profile_store where
  "two_profiles =
     \<lparr>config_file = Settings [''//server/share''],
      profiles_dir_exists = True,
      profile_names = [''work'', ''home''],
      profile_files = (\<lambda>n. if n = ''work'' then Settings [''/proj'', ''ftp://host/x'']
                            else if n = ''home'' then Settings [''/proj'']
                            else Missing)\<rparr>"

definition only_default :: profile_store where
  "only_default =
     \<lparr>config_file = Settings [''//server/share''],
      profiles_dir_exists = True,
      profile_names = [],
      profile_files = (\<lambda>n. Missing)\<rparr>"

text \<open>
  The hidden-directory tree after a poll, with \<open>/proj/.cache/sub\<close> and the file in it
  checked; the state that loading its saved settings gives; and that state after one more
  poll.
\<close>

definition cache_checked :: app where
  "cache_checked =
     cache_app\<lparr>folder_tree_data :=
                 [(''/proj'', \<lparr>checked = False, is_dir = True\<rparr>),
                  (''/proj/.cache/sub'', \<lparr>checked = True, is_dir = True\<rparr>),
                  (''/proj/.cache/sub/x.txt'', \<lparr>checked = True, is_dir = False\<rparr>)],
               visited_dirs := {''/proj/.cache/sub/x.txt'', ''/proj/.cache/sub'', ''/proj''},
               timers := after_apply_timers,
               expanded := [''/proj'']\<rparr>"

definition cache_loaded :: app where
  "cache_loaded =
     cache_app\<lparr>folder_tree_data := [(''/proj'', \<lparr>checked = False, is_dir = True\<rparr>)],
               saved_folder_checks :=
                 [(''/proj'', False), (''/proj/.cache/sub'', True),
                  (''/proj/.cache/sub/x.txt'', True)],
               visited_dirs := {''/proj''}, timers := after_apply_timers,
               expanded := [''/proj'']\<rparr>"

definition cache_repolled :: app where
  "cache_repolled =
     cache_loaded\<lparr>folder_tree_data :=
                    [(''/proj'', \<lparr>checked = False, is_dir = True\<rparr>),
                     (''/proj/.cache/sub'', \<lparr>checked = False, is_dir = True\<rparr>),
                     (''/proj/.cache/sub/x.txt'', \<lparr>checked = False, is_dir = False\<rparr>)],
                  visited_dirs := {''/proj/.cache/sub/x.txt'', ''/proj/.cache/sub'', ''/proj''}\<rparr>"

section \<open>Properties of the scanner\<close>

section \<open>A big-step rule for the scanner\<close>

lemma add_directory_contents_Suc:
  "add_directory_contents (Suc n) fs d a =
     (if can_list fs d
      then (case listdir fs d of None \<Rightarrow> Some a
            | Some items \<Rightarrow> add_items n fs d (sort items) (mark_expanded d a))
      else Some a)"
  by (simp add: can_list_def mark_expanded_def split: option.splits)

lemma add_items_skip:
  "skips_item fs a d item \<Longrightarrow> add_items n fs d (item # items) a = add_items n fs d items a"
  by (cases "samefile fs d (join_path d item)") (auto simp: skips_item_def Let_def split: bool.splits)

lemma add_items_file:
  "\<not> skips_item fs a d item \<Longrightarrow> \<not> path_isdir fs (join_path d item) \<Longrightarrow>
   add_items n fs d (item # items) a =
     add_items n fs d items (register_node (join_path d item) False a)"
  by (simp add: skips_item_def Let_def)

lemma add_items_dir_closed:
  "\<not> skips_item fs a d item \<Longrightarrow> path_isdir fs (join_path d item) \<Longrightarrow>
   is_potentially_problematic_path fs (join_path d item) \<Longrightarrow>
   add_items n fs d (item # items) a = add_items n fs d items (enter_dir fs (join_path d item) a)"
  by (simp add: skips_item_def Let_def enter_dir_def)

lemma add_items_dir_open:
  "\<not> skips_item fs a d item \<Longrightarrow> path_isdir fs (join_path d item) \<Longrightarrow>
   \<not> is_potentially_problematic_path fs (join_path d item) \<Longrightarrow>
   add_items n fs d (item # items) a =
     (case add_directory_contents n fs (join_path d item) (enter_dir fs (join_path d item) a) of
        None \<Rightarrow> None
      | Some a3 \<Rightarrow> add_items n fs d items a3)"
  by (simp add: skips_item_def Let_def enter_dir_def)


lemmas add_dc_simps_del = add_directory_contents.simps(2) add_items.simps(2)
declare add_dc_simps_del [simp del]

lemma add_items_rule:
  assumes h_dc: "\<And>d a a'. add_directory_contents n fs d a = Some a' \<Longrightarrow> P d a a'"
    and h_nil: "\<And>d a. Q d [] a a"
    and h_skip: "\<And>d item items a a'. skips_item fs a d item \<Longrightarrow> Q d items a a' \<Longrightarrow>
                 Q d (item # items) a a'"
    and h_file: "\<And>d item items a a'. \<not> skips_item fs a d item \<Longrightarrow>
                 \<not> path_isdir fs (join_path d item) \<Longrightarrow>
                 Q d items (register_node (join_path d item) False a) a' \<Longrightarrow>
                 Q d (item # items) a a'"
    and h_closed: "\<And>d item items a a'. \<not> skips_item fs a d item \<Longrightarrow>
                 path_isdir fs (join_path d item) \<Longrightarrow>
                 is_potentially_problematic_path fs (join_path d item) \<Longrightarrow>
                 Q d items (enter_dir fs (join_path d item) a) a' \<Longrightarrow>
                 Q d (item # items) a a'"
    and h_open: "\<And>d item items a a3 a'. \<not> skips_item fs a d item \<Longrightarrow>
                 path_isdir fs (join_path d item) \<Longrightarrow>
                 \<not> is_potentially_problematic_path fs (join_path d item) \<Longrightarrow>
                 P (join_path d item) (enter_dir fs (join_path d item) a) a3 \<Longrightarrow>
                 Q d items a3 a' \<Longrightarrow>
                 Q d (item # items) a a'"
  shows "add_items n fs d items a = Some a' \<Longrightarrow> Q d items a a'"
proof (induction items arbitrary: a)
  case Nil
  then show ?case using h_nil by simp
next
  case (Cons item items)
  show ?case
  proof (cases "skips_item fs a d item")
    case True
    with Cons.prems have "add_items n fs d items a = Some a'" by (simp add: add_items_skip)
    then show ?thesis using Cons.IH True h_skip by blast
  next
    case ns: False
    show ?thesis
    proof (cases "path_isdir fs (join_path d item)")
      case False
      with ns Cons.prems
      have "add_items n fs d items (register_node (join_path d item) False a) = Some a'"
        by (simp add: add_items_file)
      then show ?thesis using Cons.IH ns False h_file by blast
    next
      case isd: True
      show ?thesis
      proof (cases "is_potentially_problematic_path fs (join_path d item)")
        case True
        with ns isd Cons.prems
        have "add_items n fs d items (enter_dir fs (join_path d item) a) = Some a'"
          by (simp add: add_items_dir_closed)
        then show ?thesis using Cons.IH ns isd True h_closed by blast
      next
        case False
        with ns isd Cons.prems obtain a3 where
          a3: "add_directory_contents n fs (join_path d item) (enter_dir fs (join_path d item) a) = Some a3"
          and rest: "add_items n fs d items a3 = Some a'"
          by (auto simp: add_items_dir_open split: option.splits)
        from a3 have "P (join_path d item) (enter_dir fs (join_path d item) a) a3" by (rule h_dc)
        moreover from rest have "Q d items a3 a'" by (rule Cons.IH)
        ultimately show ?thesis using ns isd False h_open by blast
      qed
    qed
  qed
qed


lemma scan_rule:
  assumes h_stop: "\<And>d a. P d a a"
    and h_list: "\<And>d a items a'. can_list fs d \<Longrightarrow> listdir fs d = Some items \<Longrightarrow>
                   Q d (sort items) (mark_expanded d a) a' \<Longrightarrow> P d a a'"
    and h_nil: "\<And>d a. Q d [] a a"
    and h_skip: "\<And>d item items a a'. skips_item fs a d item \<Longrightarrow> Q d items a a' \<Longrightarrow>
                 Q d (item # items) a a'"
    and h_file: "\<And>d item items a a'. \<not> skips_item fs a d item \<Longrightarrow>
                 \<not> path_isdir fs (join_path d item) \<Longrightarrow>
                 Q d items (register_node (join_path d item) False a) a' \<Longrightarrow>
                 Q d (item # items) a a'"
    and h_closed: "\<And>d item items a a'. \<not> skips_item fs a d item \<Longrightarrow>
                 path_isdir fs (join_path d item) \<Longrightarrow>
                 is_potentially_problematic_path fs (join_path d item) \<Longrightarrow>
                 Q d items (enter_dir fs (join_path d item) a) a' \<Longrightarrow>
                 Q d (item # items) a a'"
    and h_open: "\<And>d item items a a3 a'. \<not> skips_item fs a d item \<Longrightarrow>
                 path_isdir fs (join_path d item) \<Longrightarrow>
                 \<not> is_potentially_problematic_path fs (join_path d item) \<Longrightarrow>
                 P (join_path d item) (enter_dir fs (join_path d item) a) a3 \<Longrightarrow>
                 Q d items a3 a' \<Longrightarrow>
                 Q d (item # items) a a'"
  shows "add_directory_contents n fs d a = Some a' \<Longrightarrow> P d a a'"
    and "add_items n fs d items a = Some a' \<Longrightarrow> Q d items a a'"
proof -
  have dc: "\<And>d a a'. add_directory_contents n fs d a = Some a' \<Longrightarrow> P d a a'"
  proof (induction n)
    case 0
    then show ?case by simp
  next
    case (Suc n)
    show ?case
    proof (cases "can_list fs d")
      case False
      with Suc.prems have "a' = a" by (simp add: add_directory_contents_Suc)
      then show ?thesis using h_stop by simp
    next
      case cl: True
      show ?thesis
      proof (cases "listdir fs d")
        case None
        with cl Suc.prems have "a' = a" by (simp add: add_directory_contents_Suc)
        then show ?thesis using h_stop by simp
      next
        case (Some items)
        with cl Suc.prems
        have run: "add_items n fs d (sort items) (mark_expanded d a) = Some a'"
          by (simp add: add_directory_contents_Suc)
        have "Q d (sort items) (mark_expanded d a) a'"
          by (rule add_items_rule [where P = P and Q = Q, OF Suc.IH h_nil h_skip h_file h_closed h_open run])
        then show ?thesis using cl Some h_list by blast
      qed
    qed
  qed
  show "add_directory_contents n fs d a = Some a' \<Longrightarrow> P d a a'" by (rule dc)
  show "add_items n fs d items a = Some a' \<Longrightarrow> Q d items a a'"
    by (rule add_items_rule [where P = P and Q = Q, OF dc h_nil h_skip h_file h_closed h_open])
qed

section \<open>What the scanner leaves unchanged\<close>

lemma same_settings_refl [simp]: "same_settings a a"
  by (simp add: same_settings_def)

lemma same_settings_trans: "same_settings a b \<Longrightarrow> same_settings b c \<Longrightarrow> same_settings a c"
  by (simp add: same_settings_def)

lemma filters_match_same: "same_settings a b \<Longrightarrow> filters_match b p = filters_match a p"
  by (simp add: same_settings_def filters_match_def)

lemma scan_grows_refl [simp]: "scan_grows a a"
  by (simp add: scan_grows_def)

lemma scan_grows_trans: "scan_grows a b \<Longrightarrow> scan_grows b c \<Longrightarrow> scan_grows a c"
  unfolding scan_grows_def using same_settings_trans by blast

lemma tree_keys_register [simp]:
  "tree_keys (register_node p d a) = insert p (tree_keys a)"
  by (simp add: register_node_def tree_keys_def dom_update)

lemma visited_register [simp]: "visited_dirs (register_node p d a) = visited_dirs a"
  by (simp add: register_node_def)

lemma expanded_register [simp]: "expanded (register_node p d a) = expanded a"
  by (simp add: register_node_def)

lemma same_settings_register [simp]: "same_settings a (register_node p d a)"
  by (simp add: same_settings_def register_node_def)

lemma tree_keys_enter [simp]: "tree_keys (enter_dir fs p a) = insert p (tree_keys a)"
  by (simp add: enter_dir_def tree_keys_def register_node_def dom_update)

lemma visited_enter [simp]:
  "visited_dirs (enter_dir fs p a) = insert (realpath fs p) (visited_dirs a)"
  by (simp add: enter_dir_def)

lemma expanded_enter [simp]: "expanded (enter_dir fs p a) = expanded a"
  by (simp add: enter_dir_def register_node_def)

lemma same_settings_enter [simp]: "same_settings a (enter_dir fs p a)"
  by (simp add: same_settings_def enter_dir_def register_node_def)

lemma tree_keys_mark [simp]: "tree_keys (mark_expanded d a) = tree_keys a"
  by (simp add: mark_expanded_def tree_keys_def)

lemma visited_mark [simp]: "visited_dirs (mark_expanded d a) = visited_dirs a"
  by (simp add: mark_expanded_def)

lemma expanded_mark [simp]: "expanded (mark_expanded d a) = expanded a @ [d]"
  by (simp add: mark_expanded_def)

lemma folder_tree_data_mark [simp]: "folder_tree_data (mark_expanded d a) = folder_tree_data a"
  by (simp add: mark_expanded_def)

lemma same_settings_mark [simp]: "same_settings a (mark_expanded d a)"
  by (simp add: same_settings_def mark_expanded_def)

lemma scan_grows_register [simp]: "scan_grows a (register_node p d a)"
  by (auto simp: scan_grows_def)

lemma scan_grows_enter [simp]: "scan_grows a (enter_dir fs p a)"
  by (auto simp: scan_grows_def)

lemma scan_grows_mark [simp]: "scan_grows a (mark_expanded d a)"
  by (simp add: scan_grows_def)

lemma scan_frame:
  shows "add_directory_contents n fs d a = Some a' \<Longrightarrow> scan_grows a a'"
    and "add_items n fs d items a = Some a' \<Longrightarrow> scan_grows a a'"
proof -
  let ?P = "\<lambda>(d::string) a a'. scan_grows a a'"
  let ?Q = "\<lambda>(d::string) (items::string list) a a'. scan_grows a a'"
  show "add_directory_contents n fs d a = Some a' \<Longrightarrow> scan_grows a a'"
    by (rule scan_rule(1) [where P = ?P and Q = ?Q and fs = fs])
       (blast intro: scan_grows_refl scan_grows_trans scan_grows_register scan_grows_enter
          scan_grows_mark)+
  show "add_items n fs d items a = Some a' \<Longrightarrow> scan_grows a a'"
    by (rule scan_rule(2) [where P = ?P and Q = ?Q and fs = fs])
       (blast intro: scan_grows_refl scan_grows_trans scan_grows_register scan_grows_enter
          scan_grows_mark)+
qed

section \<open>Every entry is a root or a listed child that is not ignored\<close>

lemma listed_child_mono:
  "listed_child fs a p \<Longrightarrow> tree_keys a \<subseteq> tree_keys b \<Longrightarrow> listed_child fs b p"
  unfolding listed_child_def by blast

lemma entries_justified_add:
  assumes inv: "entries_justified fs a"
    and same: "same_settings a b"
    and keys: "tree_keys b = insert p (tree_keys a)"
    and nf: "\<not> filters_match a p"
    and d: "d \<in> tree_keys a" "listdir fs d = Some lst" "item \<in> set lst" "p = join_path d item"
  shows "entries_justified fs b"
  unfolding entries_justified_def
proof
  fix q assume q: "q \<in> tree_keys b"
  have sub: "tree_keys a \<subseteq> tree_keys b" using keys by blast
  have rf: "root_folders b = root_folders a" using same by (simp add: same_settings_def)
  show "q \<in> set (root_folders b) \<or> (\<not> filters_match b q \<and> listed_child fs b q)"
  proof (cases "q = p")
    case True
    have "listed_child fs a p" unfolding listed_child_def using d by blast
    then have "listed_child fs b p" using sub by (rule listed_child_mono)
    moreover have "\<not> filters_match b p" using nf same by (simp add: filters_match_same)
    ultimately show ?thesis using True by simp
  next
    case False
    with q keys have "q \<in> tree_keys a" by simp
    with inv have "q \<in> set (root_folders a) \<or> (\<not> filters_match a q \<and> listed_child fs a q)"
      unfolding entries_justified_def by blast
    then show ?thesis using rf same sub
      by (auto simp: filters_match_same intro: listed_child_mono)
  qed
qed

lemma entries_justified_same_keys:
  assumes inv: "entries_justified fs a" and same: "same_settings a b"
    and keys: "tree_keys b = tree_keys a"
  shows "entries_justified fs b"
proof -
  have rf: "root_folders b = root_folders a" using same by (simp add: same_settings_def)
  have lc: "\<And>q. listed_child fs b q = listed_child fs a q"
    by (simp add: listed_child_def keys)
  show ?thesis using inv unfolding entries_justified_def
    by (simp add: keys rf lc filters_match_same [OF same])
qed

lemma skips_item_not_filtered: "\<not> skips_item fs a d item \<Longrightarrow> \<not> filters_match a (join_path d item)"
  by (simp add: skips_item_def)

lemma scan_justified:
  shows "add_directory_contents n fs d a = Some a' \<Longrightarrow>
           scan_grows a a' \<and> (d \<in> tree_keys a \<longrightarrow> entries_justified fs a \<longrightarrow> entries_justified fs a')"
    and "add_items n fs d items a = Some a' \<Longrightarrow>
           scan_grows a a' \<and>
           (d \<in> tree_keys a \<longrightarrow> (\<exists>lst. listdir fs d = Some lst \<and> set items \<subseteq> set lst) \<longrightarrow>
            entries_justified fs a \<longrightarrow> entries_justified fs a')"
proof -
  let ?P = "\<lambda>d a a'. scan_grows a a' \<and>
              (d \<in> tree_keys a \<longrightarrow> entries_justified fs a \<longrightarrow> entries_justified fs a')"
  let ?Q = "\<lambda>d items a a'. scan_grows a a' \<and>
              (d \<in> tree_keys a \<longrightarrow> (\<exists>lst. listdir fs d = Some lst \<and> set items \<subseteq> set lst) \<longrightarrow>
               entries_justified fs a \<longrightarrow> entries_justified fs a')"
  have h_stop: "\<And>d a. ?P d a a" by simp
  have h_list: "\<And>d a items a'. can_list fs d \<Longrightarrow> listdir fs d = Some items \<Longrightarrow>
                   ?Q d (sort items) (mark_expanded d a) a' \<Longrightarrow> ?P d a a'"
  proof -
    fix d a items a'
    assume l: "listdir fs d = Some items" and q: "?Q d (sort items) (mark_expanded d a) a'"
    have g: "scan_grows a a'" using q scan_grows_mark scan_grows_trans by blast
    have "entries_justified fs a'" if "d \<in> tree_keys a" "entries_justified fs a"
    proof -
      have "entries_justified fs (mark_expanded d a)"
        using that(2) by (rule entries_justified_same_keys) simp_all
      moreover have "\<exists>lst. listdir fs d = Some lst \<and> set (sort items) \<subseteq> set lst" using l by simp
      ultimately show ?thesis using q that(1) by simp
    qed
    with g show "?P d a a'" by blast
  qed
  have h_nil: "\<And>d a. ?Q d [] a a" by simp
  have h_skip: "\<And>d item items a a'. skips_item fs a d item \<Longrightarrow> ?Q d items a a' \<Longrightarrow>
                 ?Q d (item # items) a a'" by auto
  have step: "?Q d (item # items) a a'"
    if ns: "\<not> skips_item fs a d item" and g: "scan_grows a b" "scan_grows b c" "scan_grows c a'"
      and kb: "tree_keys b = insert (join_path d item) (tree_keys a)"
      and bc: "join_path d item \<in> tree_keys b \<longrightarrow> entries_justified fs b \<longrightarrow> entries_justified fs c"
      and ca: "d \<in> tree_keys c \<longrightarrow> (\<exists>lst. listdir fs d = Some lst \<and> set items \<subseteq> set lst) \<longrightarrow>
               entries_justified fs c \<longrightarrow> entries_justified fs a'"
    for d item items a b c a'
  proof -
    have g': "scan_grows a a'" using g scan_grows_trans by blast
    have "entries_justified fs a'"
      if dk: "d \<in> tree_keys a" and lst: "listdir fs d = Some lst" "set (item # items) \<subseteq> set lst"
        and inv: "entries_justified fs a" for lst
    proof -
      have "entries_justified fs b"
        by (rule entries_justified_add [OF inv _ kb skips_item_not_filtered [OF ns] dk lst(1) _ refl])
           (use g(1) lst(2) in \<open>auto simp: scan_grows_def\<close>)
      then have "entries_justified fs c" using bc kb by simp
      moreover have "d \<in> tree_keys c" using dk g(1,2) by (auto simp: scan_grows_def)
      ultimately show ?thesis using ca lst by auto
    qed
    with g' show ?thesis by blast
  qed
  have h_file: "\<And>d item items a a'. \<not> skips_item fs a d item \<Longrightarrow>
                 \<not> path_isdir fs (join_path d item) \<Longrightarrow>
                 ?Q d items (register_node (join_path d item) False a) a' \<Longrightarrow>
                 ?Q d (item # items) a a'"
  proof -
    fix d item items a a'
    let ?b = "register_node (join_path d item) False a"
    assume ns: "\<not> skips_item fs a d item" and q: "?Q d items ?b a'"
    from q have q1: "scan_grows ?b a'" by blast
    from q have q2: "d \<in> tree_keys ?b \<longrightarrow> (\<exists>lst. listdir fs d = Some lst \<and> set items \<subseteq> set lst) \<longrightarrow>
               entries_justified fs ?b \<longrightarrow> entries_justified fs a'" by blast
    show "?Q d (item # items) a a'"
      by (rule step [OF ns scan_grows_register scan_grows_refl q1 tree_keys_register _ q2]) blast
  qed
  have h_closed: "\<And>d item items a a'. \<not> skips_item fs a d item \<Longrightarrow>
                 path_isdir fs (join_path d item) \<Longrightarrow>
                 is_potentially_problematic_path fs (join_path d item) \<Longrightarrow>
                 ?Q d items (enter_dir fs (join_path d item) a) a' \<Longrightarrow>
                 ?Q d (item # items) a a'"
  proof -
    fix d item items a a'
    let ?b = "enter_dir fs (join_path d item) a"
    assume ns: "\<not> skips_item fs a d item" and q: "?Q d items ?b a'"
    from q have q1: "scan_grows ?b a'" by blast
    from q have q2: "d \<in> tree_keys ?b \<longrightarrow> (\<exists>lst. listdir fs d = Some lst \<and> set items \<subseteq> set lst) \<longrightarrow>
               entries_justified fs ?b \<longrightarrow> entries_justified fs a'" by blast
    show "?Q d (item # items) a a'"
      by (rule step [OF ns scan_grows_enter scan_grows_refl q1 tree_keys_enter _ q2]) blast
  qed
  have h_open: "\<And>d item items a a3 a'. \<not> skips_item fs a d item \<Longrightarrow>
                 path_isdir fs (join_path d item) \<Longrightarrow>
                 \<not> is_potentially_problematic_path fs (join_path d item) \<Longrightarrow>
                 ?P (join_path d item) (enter_dir fs (join_path d item) a) a3 \<Longrightarrow>
                 ?Q d items a3 a' \<Longrightarrow>
                 ?Q d (item # items) a a'"
  proof -
    fix d item items a a3 a'
    let ?b = "enter_dir fs (join_path d item) a"
    assume ns: "\<not> skips_item fs a d item" and p: "?P (join_path d item) ?b a3"
      and q: "?Q d items a3 a'"
    from p have p1: "scan_grows ?b a3" by blast
    from p have p2: "join_path d item \<in> tree_keys ?b \<longrightarrow> entries_justified fs ?b \<longrightarrow>
               entries_justified fs a3" by blast
    from q have q1: "scan_grows a3 a'" by blast
    from q have q2: "d \<in> tree_keys a3 \<longrightarrow> (\<exists>lst. listdir fs d = Some lst \<and> set items \<subseteq> set lst) \<longrightarrow>
               entries_justified fs a3 \<longrightarrow> entries_justified fs a'" by blast
    show "?Q d (item # items) a a'"
      by (rule step [OF ns scan_grows_enter p1 q1 tree_keys_enter p2 q2])
  qed
  show "add_directory_contents n fs d a = Some a' \<Longrightarrow> ?P d a a'"
    by (rule scan_rule(1) [where P = ?P and Q = ?Q and fs = fs,
          OF h_stop h_list h_nil h_skip h_file h_closed h_open])
  show "add_items n fs d items a = Some a' \<Longrightarrow> ?Q d items a a'"
    by (rule scan_rule(2) [where P = ?P and Q = ?Q and fs = fs,
          OF h_stop h_list h_nil h_skip h_file h_closed h_open])
qed

section \<open>Applying saved checks keeps the entries\<close>

lemma map_fst_set_checked [simp]: "map fst (set_checked p v t) = map fst t"
  by (induction t) (auto simp: set_checked_def)

lemma tree_keys_set_checked [simp]:
  "tree_keys (a\<lparr>folder_tree_data := set_checked p v (folder_tree_data a)\<rparr>) = tree_keys a"
proof -
  have "fst ` set (set_checked p v (folder_tree_data a)) =
        set (map fst (set_checked p v (folder_tree_data a)))" by (simp only: set_map)
  also have "\<dots> = set (map fst (folder_tree_data a))" by (simp only: map_fst_set_checked)
  also have "\<dots> = fst ` set (folder_tree_data a)" by (simp only: set_map)
  finally show ?thesis by (simp add: tree_keys_def)
qed

lemma same_settings_set_checked [simp]:
  "same_settings a (a\<lparr>folder_tree_data := t\<rparr>)"
  by (simp add: same_settings_def)

lemma apply_checks_frame:
  "same_settings a (apply_checks l a) \<and> tree_keys (apply_checks l a) = tree_keys a \<and>
   visited_dirs (apply_checks l a) = visited_dirs a \<and> expanded (apply_checks l a) = expanded a"
proof (induction l arbitrary: a)
  case Nil
  then show ?case by simp
next
  case (Cons x l)
  obtain p c where x: "x = (p, c)" by (cases x)
  let ?b = "a\<lparr>folder_tree_data := set_checked p c (folder_tree_data a)\<rparr>"
  have b: "same_settings a ?b" "tree_keys ?b = tree_keys a" "visited_dirs ?b = visited_dirs a"
    "expanded ?b = expanded a" by simp_all
  show ?case
  proof (cases "p \<in> tree_keys a \<and> \<not> filters_match a p")
    case True
    then have "apply_checks (x # l) a = apply_checks l ?b" by (simp add: x)
    moreover have "same_settings a (apply_checks l ?b)"
      using b(1) Cons.IH [of ?b] by (blast intro: same_settings_trans)
    ultimately show ?thesis using Cons.IH [of ?b] b by simp
  next
    case False
    then have "apply_checks (x # l) a = apply_checks l a" by (auto simp: x)
    with Cons.IH [of a] show ?thesis by simp
  qed
qed

lemma apply_saved_checks_frame:
  "same_settings a (apply_saved_checks a)" "tree_keys (apply_saved_checks a) = tree_keys a"
  "visited_dirs (apply_saved_checks a) = visited_dirs a"
  "expanded (apply_saved_checks a) = expanded a"
  using apply_checks_frame [of a "saved_folder_checks a"]
  by (simp_all add: apply_saved_checks_def Let_def same_settings_def tree_keys_def)

lemma apply_saved_checks_data [simp]:
  "folder_tree_data (apply_saved_checks a) =
     folder_tree_data (apply_checks (saved_folder_checks a) a)"
  by (simp add: apply_saved_checks_def Let_def)

section \<open>The invariant after a full scan\<close>

lemma build_tree_for_justified:
  assumes run: "build_tree_for n fs folder a = Some a'"
    and root: "folder \<in> set (root_folders a)"
    and inv: "entries_justified fs a"
  shows "scan_grows a a' \<and> entries_justified fs a'"
proof (cases "\<not> check_folder_access_with_timeout fs folder \<or> realpath fs folder \<in> visited_dirs a")
  case True
  with run have "a' = a" by (auto simp: build_tree_for_def Let_def split: if_splits)
  with inv show ?thesis by simp
next
  case False
  define a1 where "a1 = a\<lparr>visited_dirs := insert (realpath fs folder) (visited_dirs a)\<rparr>"
  define a2 where "a2 = (if folder \<notin> tree_keys a1 then register_node folder True a1 else a1)"
  have k1: "tree_keys a1 = tree_keys a" by (simp add: a1_def tree_keys_def)
  have s1: "same_settings a a1" by (simp add: a1_def same_settings_def)
  have g1: "scan_grows a a1" using s1 k1 by (auto simp: scan_grows_def a1_def)
  have k2: "tree_keys a2 = insert folder (tree_keys a)" using k1 by (auto simp: a2_def)
  have s2: "same_settings a a2"
    using s1 same_settings_register [of a1 folder True] by (auto simp: a2_def intro: same_settings_trans)
  have g2: "scan_grows a a2"
    using s2 k2 by (auto simp: scan_grows_def a2_def a1_def)
  have rf2: "root_folders a2 = root_folders a" using s2 by (simp add: same_settings_def)
  have inv2: "entries_justified fs a2"
    unfolding entries_justified_def
  proof
    fix q assume "q \<in> tree_keys a2"
    then consider "q = folder" | "q \<in> tree_keys a" using k2 by auto
    then show "q \<in> set (root_folders a2) \<or> (\<not> filters_match a2 q \<and> listed_child fs a2 q)"
    proof cases
      case 1
      then show ?thesis using root rf2 by simp
    next
      case 2
      with inv have "q \<in> set (root_folders a) \<or> (\<not> filters_match a q \<and> listed_child fs a q)"
        unfolding entries_justified_def by blast
      then show ?thesis using rf2 s2 k2
        by (auto simp: filters_match_same intro: listed_child_mono)
    qed
  qed
  from False run have "add_directory_contents n fs folder a2 = Some a'"
    by (auto simp: build_tree_for_def Let_def a1_def a2_def split: if_splits)
  from scan_justified(1) [OF this] k2 inv2
  have "scan_grows a2 a'" "entries_justified fs a'" by simp_all
  with g2 show ?thesis using scan_grows_trans by blast
qed

lemma build_roots_justified:
  "build_roots n fs folders a = Some a' \<Longrightarrow> set folders \<subseteq> set (root_folders a) \<Longrightarrow>
   entries_justified fs a \<Longrightarrow> scan_grows a a' \<and> entries_justified fs a'"
proof (induction folders arbitrary: a)
  case Nil
  then show ?case by simp
next
  case (Cons folder folders)
  show ?case
  proof (cases "path_exists fs folder")
    case False
    with Cons.prems have "build_roots n fs folders a = Some a'" by simp
    then show ?thesis using Cons.IH Cons.prems by simp
  next
    case True
    with Cons.prems obtain a1 where
      a1: "build_tree_for n fs folder a = Some a1" and rest: "build_roots n fs folders a1 = Some a'"
      by (auto split: option.splits)
    from build_tree_for_justified [OF a1] Cons.prems
    have g1: "scan_grows a a1" and j1: "entries_justified fs a1" by simp_all
    have "root_folders a1 = root_folders a" using g1 by (simp add: scan_grows_def same_settings_def)
    with Cons.prems have "set folders \<subseteq> set (root_folders a1)" by simp
    from Cons.IH [OF rest this j1] g1 show ?thesis using scan_grows_trans by blast
  qed
qed


section \<open>Polling keeps every entry a root or unignored\<close>

lemma poll_keeps_refl [simp]: "poll_keeps a a"
  by (simp add: poll_keeps_def)

lemma poll_keeps_trans: "poll_keeps a b \<Longrightarrow> poll_keeps b c \<Longrightarrow> poll_keeps a c"
  unfolding poll_keeps_def using same_settings_trans by blast

lemma poll_keeps_add_polled:
  assumes "\<not> filters_match a p"
  shows "poll_keeps a (add_polled fs p d a)"
proof (cases "p \<in> tree_keys a")
  case True
  then show ?thesis by (simp add: add_polled_def)
next
  case False
  let ?b = "(register_node p d a)\<lparr>visited_dirs := insert (realpath fs p) (visited_dirs a)\<rparr>"
  have b: "add_polled fs p d a = ?b" using False by (simp add: add_polled_def)
  have s: "same_settings a ?b" by (simp add: same_settings_def register_node_def)
  have k: "tree_keys ?b = insert p (tree_keys a)"
    by (simp add: tree_keys_def register_node_def dom_update)
  have "unignored_or_root ?b" if "unignored_or_root a"
    using that assms k s
    by (auto simp: unignored_or_root_def filters_match_same [OF s] same_settings_def)
  with s show ?thesis by (simp add: b poll_keeps_def)
qed

lemma poll_names_keeps: "poll_keeps a (poll_state (poll_names fs r d names a))"
proof (induction names arbitrary: a)
  case Nil
  then show ?case by simp
next
  case (Cons name names)
  let ?p = "join_path r name"
  show ?case
  proof (cases "filters_match a ?p \<or> realpath fs ?p \<in> visited_dirs a")
    case True
    then have "poll_names fs r d (name # names) a = poll_names fs r d names a"
      by (auto simp: Let_def)
    then show ?thesis using Cons.IH by simp
  next
    case nf: False
    show ?thesis
    proof (cases "samefile fs r ?p")
      case None
      with nf show ?thesis by (simp add: Let_def)
    next
      case (Some same)
      show ?thesis
      proof (cases same)
        case True
        with nf Some have "poll_names fs r d (name # names) a = poll_names fs r d names a"
          by (simp add: Let_def)
        then show ?thesis using Cons.IH by simp
      next
        case False
        with nf Some have "poll_names fs r d (name # names) a =
            poll_names fs r d names (add_polled fs ?p d a)" by (simp add: Let_def)
        moreover have "poll_keeps a (add_polled fs ?p d a)"
          using nf by (simp add: poll_keeps_add_polled)
        ultimately show ?thesis using Cons.IH poll_keeps_trans by metis
      qed
    qed
  qed
qed

lemma poll_walk_keeps: "poll_keeps a (poll_state (poll_walk fs triples a))"
proof (induction triples arbitrary: a)
  case Nil
  then show ?case by simp
next
  case (Cons t triples)
  obtain r dirs files where t: "t = (r, dirs, files)" by (cases t)
  show ?case
  proof (cases "filters_match a r \<or> realpath fs r \<in> visited_dirs a")
    case True
    then have "poll_walk fs (t # triples) a = poll_walk fs triples a" by (auto simp: t)
    then show ?thesis using Cons.IH by simp
  next
    case nf: False
    let ?a0 = "add_polled fs r True a"
    have k0: "poll_keeps a ?a0" using nf by (simp add: poll_keeps_add_polled)
    have k1: "poll_keeps a (poll_state (poll_names fs r True dirs ?a0))"
      using k0 poll_names_keeps poll_keeps_trans by blast
    show ?thesis
    proof (cases "poll_names fs r True dirs ?a0")
      case (Raised a1)
      with nf have "poll_walk fs (t # triples) a = Raised a1" by (simp add: t)
      with k1 Raised show ?thesis by simp
    next
      case r1: (Returned a1)
      with k1 have k1': "poll_keeps a a1" by simp
      have k2: "poll_keeps a (poll_state (poll_names fs r False files a1))"
        using k1' poll_names_keeps poll_keeps_trans by blast
      show ?thesis
      proof (cases "poll_names fs r False files a1")
        case (Raised a2)
        with nf r1 have "poll_walk fs (t # triples) a = Raised a2" by (simp add: t)
        with k2 Raised show ?thesis by simp
      next
        case (Returned a2)
        with nf r1 have "poll_walk fs (t # triples) a = poll_walk fs triples a2" by (simp add: t)
        moreover from k2 Returned have "poll_keeps a a2" by simp
        ultimately show ?thesis using Cons.IH poll_keeps_trans by metis
      qed
    qed
  qed
qed

lemma poll_roots_keeps:
  "poll_roots n fs folders a = Some out \<Longrightarrow> poll_keeps a (poll_state out)"
proof (induction folders arbitrary: a)
  case Nil
  then show ?case by auto
next
  case (Cons folder folders)
  show ?case
  proof (cases "path_exists fs folder")
    case False
    with Cons.prems have "poll_roots n fs folders a = Some out" by simp
    then show ?thesis by (rule Cons.IH)
  next
    case True
    with Cons.prems obtain triples where w: "os_walk n fs folder = Some triples"
      by (auto split: option.splits)
    have k: "poll_keeps a (poll_state (poll_walk fs triples a))" by (rule poll_walk_keeps)
    show ?thesis
    proof (cases "poll_walk fs triples a")
      case (Raised a1)
      with True w Cons.prems have "out = Raised a1" by simp
      with k Raised show ?thesis by simp
    next
      case (Returned a1)
      with True w Cons.prems have "poll_roots n fs folders a1 = Some out" by simp
      then have "poll_keeps a1 (poll_state out)" by (rule Cons.IH)
      moreover from k Returned have "poll_keeps a a1" by simp
      ultimately show ?thesis using poll_keeps_trans by blast
    qed
  qed
qed

lemma schedule_folder_poll_keeps:
  "schedule_folder_poll n fss a = Some a' \<Longrightarrow> poll_keeps a a'"
proof (induction fss arbitrary: a)
  case Nil
  then show ?case by simp
next
  case (Cons fs fss)
  from Cons.prems obtain out where p: "poll_folder n fs a = Some out"
    by (auto split: option.splits)
  then have k: "poll_keeps a (poll_state out)" unfolding poll_folder_def by (rule poll_roots_keeps)
  show ?case
  proof (cases out)
    case (Raised a1)
    with p Cons.prems have "a' = a1" by simp
    with k Raised show ?thesis by simp
  next
    case (Returned a1)
    with p Cons.prems have "schedule_folder_poll n fss a1 = Some a'" by simp
    then have "poll_keeps a1 a'" by (rule Cons.IH)
    moreover from k Returned have "poll_keeps a a1" by simp
    ultimately show ?thesis using poll_keeps_trans by blast
  qed
qed


section \<open>Which paths have an entry\<close>






text \<open>
  A poll after the scan of \<open>/proj\<close> passes over the hidden \<open>/proj/.cache\<close>, yet
  \<open>os.walk\<close> goes on below it, and the poll enters \<open>/proj/.cache/sub\<close> and its
  file, which the scan never reaches.
\<close>

lemma poll_enters_below_hidden_directory:
  "filters_match cache_app ''/proj/.cache'' \<and>
   map_option (map fst \<circ> folder_tree_data) (build_all_trees 3 cache_fs cache_app) =
     Some [''/proj''] \<and>
   map_option (map fst \<circ> folder_tree_data) (schedule_folder_poll 3 [cache_fs] cache_scanned) =
     Some [''/proj'', ''/proj/.cache/sub'', ''/proj/.cache/sub/x.txt'']"
  by code_simp

section \<open>A directory is listed at most once\<close>

lemma expansions_once_mark:
  "expansions_once fs a \<Longrightarrow> realpath fs d \<in> visited_dirs a \<Longrightarrow>
   realpath fs d \<notin> realpath fs ` set (expanded a) \<Longrightarrow> expansions_once fs (mark_expanded d a)"
  by (auto simp: expansions_once_def)

lemma expansions_once_register [simp]:
  "expansions_once fs (register_node p d a) = expansions_once fs a"
  by (simp add: expansions_once_def)

lemma expansions_once_enter:
  "expansions_once fs a \<Longrightarrow> expansions_once fs (enter_dir fs p a)"
  by (auto simp: expansions_once_def)

lemma skips_item_not_visited:
  "\<not> skips_item fs a d item \<Longrightarrow> path_isdir fs (join_path d item) \<Longrightarrow>
   realpath fs (join_path d item) \<notin> visited_dirs a"
  by (simp add: skips_item_def)

lemma scan_expands_once:
  shows "add_directory_contents n fs d a = Some a' \<Longrightarrow>
           expansions_once fs a \<Longrightarrow> realpath fs d \<in> visited_dirs a \<Longrightarrow>
           realpath fs d \<notin> realpath fs ` set (expanded a) \<Longrightarrow> expansions_once fs a'"
    and "add_items n fs d items a = Some a' \<Longrightarrow> expansions_once fs a \<Longrightarrow> expansions_once fs a'"
proof -
  let ?P = "\<lambda>d a a'. expansions_once fs a \<and> realpath fs d \<in> visited_dirs a \<and>
              realpath fs d \<notin> realpath fs ` set (expanded a) \<longrightarrow> expansions_once fs a'"
  let ?Q = "\<lambda>(d::string) (items::string list) a a'. expansions_once fs a \<longrightarrow> expansions_once fs a'"
  have h_stop: "\<And>d a. ?P d a a" by simp
  have h_list: "\<And>d a items a'. can_list fs d \<Longrightarrow> listdir fs d = Some items \<Longrightarrow>
                   ?Q d (sort items) (mark_expanded d a) a' \<Longrightarrow> ?P d a a'"
    using expansions_once_mark by blast
  have h_nil: "\<And>d a. ?Q d [] a a" by simp
  have h_skip: "\<And>d item items a a'. skips_item fs a d item \<Longrightarrow> ?Q d items a a' \<Longrightarrow>
                 ?Q d (item # items) a a'" by simp
  have h_file: "\<And>d item items a a'. \<not> skips_item fs a d item \<Longrightarrow>
                 \<not> path_isdir fs (join_path d item) \<Longrightarrow>
                 ?Q d items (register_node (join_path d item) False a) a' \<Longrightarrow>
                 ?Q d (item # items) a a'" by simp
  have h_closed: "\<And>d item items a a'. \<not> skips_item fs a d item \<Longrightarrow>
                 path_isdir fs (join_path d item) \<Longrightarrow>
                 is_potentially_problematic_path fs (join_path d item) \<Longrightarrow>
                 ?Q d items (enter_dir fs (join_path d item) a) a' \<Longrightarrow>
                 ?Q d (item # items) a a'"
    using expansions_once_enter by blast
  have h_open: "\<And>d item items a a3 a'. \<not> skips_item fs a d item \<Longrightarrow>
                 path_isdir fs (join_path d item) \<Longrightarrow>
                 \<not> is_potentially_problematic_path fs (join_path d item) \<Longrightarrow>
                 ?P (join_path d item) (enter_dir fs (join_path d item) a) a3 \<Longrightarrow>
                 ?Q d items a3 a' \<Longrightarrow>
                 ?Q d (item # items) a a'"
  proof -
    fix d item items a a3 a'
    let ?p = "join_path d item"
    assume ns: "\<not> skips_item fs a d item" and isd: "path_isdir fs ?p"
      and p: "?P ?p (enter_dir fs ?p a) a3" and q: "?Q d items a3 a'"
    show "?Q d (item # items) a a'"
    proof
      assume e: "expansions_once fs a"
      have nv: "realpath fs ?p \<notin> visited_dirs a" using ns isd by (rule skips_item_not_visited)
      with e have "realpath fs ?p \<notin> realpath fs ` set (expanded a)"
        by (auto simp: expansions_once_def)
      then have "expansions_once fs a3"
        using p expansions_once_enter [OF e] by simp
      then show "expansions_once fs a'" using q by simp
    qed
  qed
  have P: "add_directory_contents n fs d a = Some a' \<Longrightarrow> ?P d a a'"
    by (rule scan_rule(1) [where P = ?P and Q = ?Q and fs = fs,
          OF h_stop h_list h_nil h_skip h_file h_closed h_open])
  have Q: "add_items n fs d items a = Some a' \<Longrightarrow> ?Q d items a a'"
    by (rule scan_rule(2) [where P = ?P and Q = ?Q and fs = fs,
          OF h_stop h_list h_nil h_skip h_file h_closed h_open])
  show "add_directory_contents n fs d a = Some a' \<Longrightarrow>
           expansions_once fs a \<Longrightarrow> realpath fs d \<in> visited_dirs a \<Longrightarrow>
           realpath fs d \<notin> realpath fs ` set (expanded a) \<Longrightarrow> expansions_once fs a'"
    using P by blast
  show "add_items n fs d items a = Some a' \<Longrightarrow> expansions_once fs a \<Longrightarrow> expansions_once fs a'"
    using Q by blast
qed

section \<open>The scanner returns\<close>

lemma card_diff_visited_mono:
  "finite D \<Longrightarrow> V \<subseteq> W \<Longrightarrow> card (D - W) \<le> card (D - V)"
  by (rule card_mono) auto

lemma card_diff_insert_less:
  "finite D \<Longrightarrow> x \<in> D \<Longrightarrow> x \<notin> V \<Longrightarrow> card (D - insert x V) < card (D - V)"
  by (rule psubset_card_mono) auto

lemma add_items_returns:
  assumes fin: "finite D" and dirs: "\<forall>p. path_isdir fs p \<longrightarrow> realpath fs p \<in> D"
    and dc: "\<And>d a. card (D - visited_dirs a) < n \<Longrightarrow> \<exists>a'. add_directory_contents n fs d a = Some a'"
  shows "card (D - visited_dirs a) \<le> n \<Longrightarrow> \<exists>a'. add_items n fs d items a = Some a'"
proof (induction items arbitrary: a)
  case Nil
  then show ?case by simp
next
  case (Cons item items)
  let ?p = "join_path d item"
  show ?case
  proof (cases "skips_item fs a d item")
    case True
    then show ?thesis using Cons by (simp add: add_items_skip)
  next
    case ns: False
    show ?thesis
    proof (cases "path_isdir fs ?p")
      case False
      with ns show ?thesis using Cons.IH [of "register_node ?p False a"] Cons.prems
        by (simp add: add_items_file)
    next
      case isd: True
      have nv: "realpath fs ?p \<notin> visited_dirs a" using ns isd by (rule skips_item_not_visited)
      have inD: "realpath fs ?p \<in> D" using dirs isd by blast
      have less: "card (D - visited_dirs (enter_dir fs ?p a)) < card (D - visited_dirs a)"
        using card_diff_insert_less [OF fin inD nv] by simp
      show ?thesis
      proof (cases "is_potentially_problematic_path fs ?p")
        case True
        with ns isd show ?thesis using Cons.IH [of "enter_dir fs ?p a"] less Cons.prems
          by (simp add: add_items_dir_closed)
      next
        case False
        from less Cons.prems have "card (D - visited_dirs (enter_dir fs ?p a)) < n" by simp
        from dc [OF this] obtain a3 where
          a3: "add_directory_contents n fs ?p (enter_dir fs ?p a) = Some a3" by blast
        from scan_frame(1) [OF a3] have "visited_dirs (enter_dir fs ?p a) \<subseteq> visited_dirs a3"
          by (simp add: scan_grows_def)
        from card_diff_visited_mono [OF fin this] less Cons.prems
        have "card (D - visited_dirs a3) \<le> n" by simp
        from Cons.IH [OF this] obtain a' where "add_items n fs d items a3 = Some a'" by blast
        with ns isd False a3 show ?thesis by (simp add: add_items_dir_open)
      qed
    qed
  qed
qed

lemma add_directory_contents_returns:
  assumes fin: "finite D" and dirs: "\<forall>p. path_isdir fs p \<longrightarrow> realpath fs p \<in> D"
  shows "card (D - visited_dirs a) < n \<Longrightarrow> \<exists>a'. add_directory_contents n fs d a = Some a'"
proof (induction n arbitrary: d a)
  case 0
  then show ?case by simp
next
  case (Suc n)
  show ?case
  proof (cases "can_list fs d")
    case False
    then show ?thesis by (simp add: add_directory_contents_Suc)
  next
    case cl: True
    show ?thesis
    proof (cases "listdir fs d")
      case None
      with cl show ?thesis by (simp add: add_directory_contents_Suc)
    next
      case (Some items)
      have "card (D - visited_dirs (mark_expanded d a)) \<le> n" using Suc.prems by simp
      from add_items_returns [OF fin dirs Suc.IH this]
      obtain a' where "add_items n fs d (sort items) (mark_expanded d a) = Some a'" by blast
      with cl Some show ?thesis by (simp add: add_directory_contents_Suc)
    qed
  qed
qed

lemma build_tree_for_returns:
  assumes fin: "finite D" and dirs: "\<forall>p. path_isdir fs p \<longrightarrow> realpath fs p \<in> D"
    and n: "card D < n" and e: "expansions_once fs a"
  shows "\<exists>a'. build_tree_for n fs folder a = Some a' \<and> expansions_once fs a'"
proof (cases "\<not> check_folder_access_with_timeout fs folder \<or> realpath fs folder \<in> visited_dirs a")
  case True
  then have "build_tree_for n fs folder a = Some a"
    by (auto simp: build_tree_for_def Let_def)
  with e show ?thesis by simp
next
  case False
  define a1 where "a1 = a\<lparr>visited_dirs := insert (realpath fs folder) (visited_dirs a)\<rparr>"
  define a2 where "a2 = (if folder \<notin> tree_keys a1 then register_node folder True a1 else a1)"
  have run: "build_tree_for n fs folder a = add_directory_contents n fs folder a2"
    using False by (auto simp: build_tree_for_def Let_def a1_def a2_def)
  have v2: "visited_dirs a2 = insert (realpath fs folder) (visited_dirs a)"
    by (simp add: a2_def a1_def)
  have x2: "expanded a2 = expanded a" by (simp add: a2_def a1_def)
  have e2: "expansions_once fs a2" using e by (auto simp: expansions_once_def v2 x2)
  have nx: "realpath fs folder \<notin> realpath fs ` set (expanded a2)"
    using False e by (auto simp: expansions_once_def x2)
  have "card (D - visited_dirs a2) \<le> card D" using fin by (simp add: card_mono)
  with n have "card (D - visited_dirs a2) < n" by simp
  from add_directory_contents_returns [OF fin dirs this]
  obtain a' where a': "add_directory_contents n fs folder a2 = Some a'" by blast
  from scan_expands_once(1) [OF a' e2 _ nx] have "expansions_once fs a'" by (simp add: v2)
  with a' run show ?thesis by simp
qed

lemma build_roots_returns:
  assumes fin: "finite D" and dirs: "\<forall>p. path_isdir fs p \<longrightarrow> realpath fs p \<in> D"
    and n: "card D < n"
  shows "expansions_once fs a \<Longrightarrow> \<exists>a'. build_roots n fs folders a = Some a' \<and> expansions_once fs a'"
proof (induction folders arbitrary: a)
  case Nil
  then show ?case by simp
next
  case (Cons folder folders)
  show ?case
  proof (cases "path_exists fs folder")
    case False
    then show ?thesis using Cons by simp
  next
    case True
    from build_tree_for_returns [OF fin dirs n Cons.prems] obtain a1 where
      a1: "build_tree_for n fs folder a = Some a1" and e1: "expansions_once fs a1" by blast
    from Cons.IH [OF e1] obtain a' where
      "build_roots n fs folders a1 = Some a'" "expansions_once fs a'" by blast
    with True a1 show ?thesis by simp
  qed
qed

text \<open>
  C2. In one scan generation (one \<open>build_all_trees\<close>, which starts from an empty
  \<open>visited_dirs\<close>) no two of the directories whose contents are listed have the same
  real path, however many paths lead to a directory; and on a filesystem with finitely
  many real directories the scan returns, whatever links it holds: a recursion depth
  above the number of real directories is never exceeded.
\<close>

theorem scan_returns_and_lists_each_directory_once:
  assumes fin: "finite D" and dirs: "\<forall>p. path_isdir fs p \<longrightarrow> realpath fs p \<in> D"
    and n: "card D < n"
  shows "\<exists>a'. build_all_trees n fs a = Some a' \<and> distinct (map (realpath fs) (expanded a'))"
proof -
  have "expansions_once fs (clear_trees a)" by (simp add: expansions_once_def clear_trees_def)
  from build_roots_returns [OF fin dirs n this] obtain a1 where
    a1: "build_roots n fs (root_folders a) (clear_trees a) = Some a1"
    and e1: "expansions_once fs a1" by blast
  have "build_all_trees n fs a = Some (apply_saved_checks a1)"
    using a1 by (simp add: build_all_trees_def)
  moreover have "distinct (map (realpath fs) (expanded (apply_saved_checks a1)))"
    using e1 by (simp add: expansions_once_def apply_saved_checks_frame)
  ultimately show ?thesis by blast
qed

theorem scan_returns_and_lists_each_directory_once_witness:
  "\<exists>a'. build_all_trees 3 cyc_fs cache_app = Some a' \<and>
        distinct (map (realpath cyc_fs) (expanded a'))"
proof -
  have fin: "finite {''/proj'', ''/proj/a''}" by simp
  have dirs: "\<forall>p. path_isdir cyc_fs p \<longrightarrow> realpath cyc_fs p \<in> {''/proj'', ''/proj/a''}"
    by (simp add: cyc_fs_def)
  have n: "card {''/proj'', ''/proj/a''} < (3::nat)" by simp
  show ?thesis by (rule scan_returns_and_lists_each_directory_once [OF fin dirs n])
qed

text \<open>The scan of the tree with the link: two entries, two directories listed.\<close>

lemma cycle_scan:
  "map_option (\<lambda>a. (map fst (folder_tree_data a), expanded a)) (build_all_trees 3 cyc_fs cache_app) =
     Some ([''/proj'', ''/proj/a''], [''/proj'', ''/proj/a''])"
  by code_simp

section \<open>The ignore matcher\<close>

lemma any_pattern_matches_iff:
  "any_pattern_matches fpath pats \<longleftrightarrow>
     (\<exists>pat \<in> set pats. strip pat \<noteq> [] \<and> fnmatch fpath (strip pat))"
  by (induction pats) (auto simp: Let_def)

text \<open>
  What \<open>filters_match\<close> computes: some stripped, non-empty user pattern matches the
  path with its backslashes replaced, or the system-folder filter is on and either a
  built-in pattern matches or the base name of the path starts with a dot and is not
  the single dot.
\<close>

lemma filters_match_iff:
  "filters_match a path \<longleftrightarrow>
     (\<exists>pat \<in> set (ignore_patterns a).
         strip pat \<noteq> [] \<and> fnmatch (replace_backslash path) (strip pat)) \<or>
     (filter_system_folders a \<and>
        ((\<exists>pat \<in> set default_ignore_patterns.
            strip pat \<noteq> [] \<and> fnmatch (replace_backslash path) (strip pat)) \<or>
         (startswith (basename path) ''.'' \<and> basename path \<noteq> ''.'')))"
proof -
  have "length (basename path) > 1 \<longleftrightarrow> basename path \<noteq> ''.''"
    if "startswith (basename path) ''.''"
    using that by (cases "basename path") (auto simp: startswith_def)
  then show ?thesis
    by (auto simp: filters_match_def Let_def any_pattern_matches_iff)
qed

text \<open>
  C5 at the path \<open>/proj/..\<close>, with no user pattern and the system-folder filter on.
  No pattern matches and the base name is \<open>..\<close>, which the hidden-name rule is meant
  to leave alone (the source comments the test with ``Skip '.' and '..' directories'');
  the test \<open>len(basename) > 1\<close> lets it through and \<open>filters_match\<close> answers
  \<open>True\<close>.
\<close>

theorem filters_match_hides_dotdot:
  "basename ''/proj/..'' = ''..'' \<and>
   \<not> any_pattern_matches (replace_backslash ''/proj/..'') (ignore_patterns cache_app) \<and>
   \<not> any_pattern_matches (replace_backslash ''/proj/..'') default_ignore_patterns \<and>
   filters_match cache_app ''/proj/..''"
  by code_simp

section \<open>The scan of the small project tree\<close>

lemma filters_match_updates:
  "filters_match (a\<lparr>folder_tree_data := t\<rparr>) = filters_match a"
  "filters_match (a\<lparr>visited_dirs := v\<rparr>) = filters_match a"
  "filters_match (a\<lparr>expanded := e\<rparr>) = filters_match a"
  "filters_match (a\<lparr>timers := ts\<rparr>) = filters_match a"
  "filters_match (register_node p d a) = filters_match a"
  "filters_match (clear_trees a) = filters_match a"
  by (rule ext, simp add: filters_match_def register_node_def clear_trees_def)+

lemma apply_checks_paths:
  "map fst (folder_tree_data (apply_checks l a)) = map fst (folder_tree_data a) \<and>
   map (is_dir \<circ> snd) (folder_tree_data (apply_checks l a)) = map (is_dir \<circ> snd) (folder_tree_data a)"
proof (induction l arbitrary: a)
  case Nil
  then show ?case by simp
next
  case (Cons x l)
  obtain q c where x: "x = (q, c)" by (cases x)
  have "map fst (set_checked q c t) = map fst t \<and>
        map (is_dir \<circ> snd) (set_checked q c t) = map (is_dir \<circ> snd) t" for t
    by (induction t) (auto simp: set_checked_def split: if_splits)
  with Cons.IH show ?case by (simp add: x o_def)
qed

lemma proj_scan:
  assumes roots: "root_folders a = [''/proj'']"
    and f1: "filters_match a ''/proj/.git''"
    and f2: "\<not> filters_match a ''/proj/src''"
    and f3: "\<not> filters_match a ''/proj/src/a.py''"
    and f4: "filters_match a ''/proj/src/a.py~''"
  shows "\<exists>a'. build_roots (Suc (Suc n)) proj_fs (root_folders a) (clear_trees a) = Some a' \<and>
           folder_tree_data a' =
             [(''/proj'', \<lparr>checked = False, is_dir = True\<rparr>),
              (''/proj/src'', \<lparr>checked = False, is_dir = True\<rparr>),
              (''/proj/src/a.py'', \<lparr>checked = False, is_dir = False\<rparr>)]"
proof -
  have s1: "sort [''src'', ''.git''] = [''.git'', ''src'']" by code_simp
  have s2: "sort [''a.py~'', ''a.py''] = [''a.py'', ''a.py~'']" by code_simp
  have j: "join_path ''/proj'' ''.git'' = ''/proj/.git''" "join_path ''/proj'' ''src'' = ''/proj/src''"
    "join_path ''/proj/src'' ''a.py'' = ''/proj/src/a.py''"
    "join_path ''/proj/src'' ''a.py~'' = ''/proj/src/a.py~''" by code_simp+
  have pp: "\<not> is_potentially_problematic_path proj_fs ''/proj''"
    "\<not> is_potentially_problematic_path proj_fs ''/proj/src''" by code_simp+
  have acc: "check_folder_access_with_timeout proj_fs ''/proj''" by code_simp
  have fsf: "path_exists proj_fs ''/proj''" "path_isdir proj_fs ''/proj''"
    "path_exists proj_fs ''/proj/src''" "path_isdir proj_fs ''/proj/src''"
    "\<not> path_isdir proj_fs ''/proj/src/a.py''"
    "listdir proj_fs ''/proj'' = Some [''src'', ''.git'']"
    "listdir proj_fs ''/proj/src'' = Some [''a.py~'', ''a.py'']"
    "realpath proj_fs = (\<lambda>p. p)"
    "samefile proj_fs ''/proj'' ''/proj/src'' = Some False"
    "samefile proj_fs ''/proj/src'' ''/proj/src/a.py'' = Some False"
    by (simp_all add: proj_fs_def proj_dirs_def proj_files_def)
  show ?thesis
    by (simp add: roots filters_match_updates build_tree_for_def add_dc_simps_del s1 s2 j pp acc fsf f1 f2 f3 f4
          Let_def clear_trees_def tree_keys_def register_node_def)
qed

text \<open>
  C6. The root \<open>/proj\<close> contains \<open>/proj/.git/config\<close>, \<open>/proj/src/a.py\<close> and
  \<open>/proj/src/a.py~\<close>. With the system-folder filter on, ignore patterns that
  include \<open>*/.git/*\<close> and \<open>*~\<close> and of which none matches \<open>/proj/src\<close> or
  \<open>/proj/src/a.py\<close>, a scan started in any state of the application, with a depth
  bound of two or more, returns and leaves exactly three entries in
  \<open>folder_tree_data\<close>: the directories \<open>/proj\<close> and \<open>/proj/src\<close> and the
  file \<open>/proj/src/a.py\<close>.
\<close>

theorem scenario_proj_three_nodes:
  assumes roots: "root_folders a = [''/proj'']"
    and toggle: "filter_system_folders a"
    and git: "''*/.git/*'' \<in> set (ignore_patterns a)"
    and tilde: "''*~'' \<in> set (ignore_patterns a)"
    and src: "\<not> any_pattern_matches ''/proj/src'' (ignore_patterns a)"
    and a_py: "\<not> any_pattern_matches ''/proj/src/a.py'' (ignore_patterns a)"
  shows "\<exists>a'. build_all_trees (Suc (Suc n)) proj_fs a = Some a' \<and>
           map fst (folder_tree_data a') = [''/proj'', ''/proj/src'', ''/proj/src/a.py''] \<and>
           map (is_dir \<circ> snd) (folder_tree_data a') = [True, True, False]"
proof -
  have b: "basename ''/proj/.git'' = ''.git''" by code_simp
  have f1: "filters_match a ''/proj/.git''"
    using toggle by (simp add: filters_match_iff b startswith_def)
  have r: "replace_backslash ''/proj/src'' = ''/proj/src''"
    "replace_backslash ''/proj/src/a.py'' = ''/proj/src/a.py''"
    "replace_backslash ''/proj/src/a.py~'' = ''/proj/src/a.py~''" by code_simp+
  have d: "\<not> any_pattern_matches ''/proj/src'' default_ignore_patterns"
    "\<not> any_pattern_matches ''/proj/src/a.py'' default_ignore_patterns"
    "\<not> startswith (basename ''/proj/src'') ''.''"
    "\<not> startswith (basename ''/proj/src/a.py'') ''.''"
    by code_simp+
  have f2: "\<not> filters_match a ''/proj/src''"
    using src d(1,3) by (simp add: filters_match_def Let_def r)
  have f3: "\<not> filters_match a ''/proj/src/a.py''"
    using a_py d(2,4) by (simp add: filters_match_def Let_def r)
  have m: "strip ''*~'' \<noteq> []" "fnmatch ''/proj/src/a.py~'' (strip ''*~'')" by code_simp+
  with tilde have "any_pattern_matches ''/proj/src/a.py~'' (ignore_patterns a)"
    unfolding any_pattern_matches_iff by blast
  then have f4: "filters_match a ''/proj/src/a.py~''"
    by (simp add: filters_match_def Let_def r)
  from proj_scan [OF roots f1 f2 f3 f4, of n] obtain a1 where
    a1: "build_roots (Suc (Suc n)) proj_fs (root_folders a) (clear_trees a) = Some a1"
    and t1: "folder_tree_data a1 =
             [(''/proj'', \<lparr>checked = False, is_dir = True\<rparr>),
              (''/proj/src'', \<lparr>checked = False, is_dir = True\<rparr>),
              (''/proj/src/a.py'', \<lparr>checked = False, is_dir = False\<rparr>)]"
    by blast
  have r1: "build_all_trees (Suc (Suc n)) proj_fs a = Some (apply_saved_checks a1)"
    by (simp add: build_all_trees_def a1)
  have r2: "map fst (folder_tree_data (apply_saved_checks a1)) =
              [''/proj'', ''/proj/src'', ''/proj/src/a.py'']"
    by (simp add: apply_saved_checks_def Let_def apply_checks_paths t1)
  have r3: "map (is_dir \<circ> snd) (folder_tree_data (apply_saved_checks a1)) = [True, True, False]"
    by (simp add: apply_saved_checks_def Let_def apply_checks_paths t1)
  from r1 r2 r3 show ?thesis by (intro exI [of _ "apply_saved_checks a1"] conjI)
qed

theorem scenario_proj_three_nodes_witness:
  "root_folders proj_app = [''/proj''] \<and> filter_system_folders proj_app \<and>
   ignore_patterns proj_app = [''*/.git/*'', ''*~''] \<and>
   map_option (map fst \<circ> folder_tree_data) (build_all_trees (Suc (Suc 0)) proj_fs proj_app) =
     Some [''/proj'', ''/proj/src'', ''/proj/src/a.py'']"
proof -
  have h: "root_folders proj_app = [''/proj'']" "filter_system_folders proj_app"
    "''*/.git/*'' \<in> set (ignore_patterns proj_app)" "''*~'' \<in> set (ignore_patterns proj_app)"
    "\<not> any_pattern_matches ''/proj/src'' (ignore_patterns proj_app)"
    "\<not> any_pattern_matches ''/proj/src/a.py'' (ignore_patterns proj_app)"
    by code_simp+
  have p: "ignore_patterns proj_app = [''*/.git/*'', ''*~'']" by (simp add: proj_app_def)
  from scenario_proj_three_nodes [OF h, of 0] obtain a' where
    "build_all_trees (Suc (Suc 0)) proj_fs proj_app = Some a'"
    "map fst (folder_tree_data a') = [''/proj'', ''/proj/src'', ''/proj/src/a.py'']"
    by (elim exE conjE)
  then have "map_option (map fst \<circ> folder_tree_data) (build_all_trees (Suc (Suc 0)) proj_fs proj_app) =
     Some [''/proj'', ''/proj/src'', ''/proj/src/a.py'']" by simp
  with h(1,2) p show ?thesis by (intro conjI)
qed

text \<open>
  Without those conditions the entries differ. With the system-folder filter off,
  \<open>/proj/.git\<close> is entered as a fourth entry: \<open>*/.git/*\<close> matches what lies below
  it, not the directory itself. With the further pattern \<open>*.py\<close> only two entries
  remain.
\<close>

theorem scenario_proj_without_conditions:
  "map_option (map fst \<circ> folder_tree_data)
     (build_all_trees 3 proj_fs (proj_app\<lparr>filter_system_folders := False\<rparr>)) =
     Some [''/proj'', ''/proj/.git'', ''/proj/src'', ''/proj/src/a.py''] \<and>
   map_option (map fst \<circ> folder_tree_data)
     (build_all_trees 3 proj_fs (proj_app\<lparr>ignore_patterns := [''*/.git/*'', ''*~'', ''*.py'']\<rparr>)) =
     Some [''/proj'', ''/proj/src'']"
  by code_simp

section \<open>Checked states across saving and loading\<close>

lemma map_of_collect_checks:
  "distinct (map fst t) \<Longrightarrow>
   map_of (collect_checks t acc) p =
     (case map_of t p of Some info \<Rightarrow> Some (checked info) | None \<Rightarrow> map_of acc p)"
proof (induction t arbitrary: acc)
  case Nil
  then show ?case by simp
next
  case (Cons x t)
  obtain k info where x: "x = (k, info)" by (cases x)
  from Cons.prems have d: "distinct (map fst t)" and nk: "k \<notin> fst ` set t" by (auto simp: x)
  from nk have none: "map_of t k = None" by (simp add: map_of_eq_None_iff)
  show ?case
    using Cons.IH [OF d, of "AList.update k (checked info) acc"] none
    by (auto simp: x update_conv' split: option.splits)
qed

lemma distinct_collect_checks:
  "distinct (map fst acc) \<Longrightarrow> distinct (map fst (collect_checks t acc))"
  by (induction t arbitrary: acc) (auto simp: distinct_update)

lemma map_of_set_checked:
  "map_of (set_checked q c t) p =
     (if p = q then map_option (\<lambda>info. info\<lparr>checked := c\<rparr>) (map_of t p) else map_of t p)"
  by (induction t) (auto simp: set_checked_def)

lemma is_checked_set_checked:
  "is_checked (a\<lparr>folder_tree_data := set_checked q c (folder_tree_data a)\<rparr>) p =
     (if p = q \<and> p \<in> tree_keys a then c else is_checked a p)"
proof -
  have k: "q \<in> tree_keys a \<longleftrightarrow> map_of (folder_tree_data a) q \<noteq> None"
    by (simp add: tree_keys_def map_of_eq_None_iff)
  show ?thesis
    by (cases "map_of (folder_tree_data a) q") (auto simp: is_checked_def map_of_set_checked k)
qed

lemma is_checked_apply_checks:
  "distinct (map fst l) \<Longrightarrow>
   is_checked (apply_checks l a) p =
     (if p \<in> tree_keys a \<and> \<not> filters_match a p
      then (case map_of l p of Some c \<Rightarrow> c | None \<Rightarrow> is_checked a p)
      else is_checked a p)"
proof (induction l arbitrary: a)
  case Nil
  then show ?case by simp
next
  case (Cons x l)
  obtain q c where x: "x = (q, c)" by (cases x)
  from Cons.prems have d: "distinct (map fst l)" and nq: "q \<notin> fst ` set l" by (auto simp: x)
  from nq have none: "map_of l q = None" by (simp add: map_of_eq_None_iff)
  let ?b = "a\<lparr>folder_tree_data := set_checked q c (folder_tree_data a)\<rparr>"
  have fm: "filters_match ?b = filters_match a"
    by (rule ext) (simp add: filters_match_def)
  show ?case
  proof (cases "q \<in> tree_keys a \<and> \<not> filters_match a q")
    case True
    then have "apply_checks (x # l) a = apply_checks l ?b" by (simp add: x)
    then show ?thesis
      using Cons.IH [OF d, of ?b] none True
      by (auto simp: x fm is_checked_set_checked split: option.splits)
  next
    case False
    then have "apply_checks (x # l) a = apply_checks l a" by (auto simp: x)
    then show ?thesis
      using Cons.IH [OF d, of a] none False
      by (auto simp: x split: option.splits)
  qed
qed

lemma is_checked_register:
  "is_checked (register_node q d a) p = (if p = q then False else is_checked a p)"
  by (simp add: is_checked_def register_node_def update_conv')

lemma all_unchecked_register [simp]: "all_unchecked a \<Longrightarrow> all_unchecked (register_node q d a)"
  by (simp add: all_unchecked_def is_checked_register)

lemma all_unchecked_enter [simp]: "all_unchecked a \<Longrightarrow> all_unchecked (enter_dir fs q a)"
  by (simp add: all_unchecked_def is_checked_def enter_dir_def register_node_def update_conv')

lemma all_unchecked_mark [simp]: "all_unchecked (mark_expanded d a) = all_unchecked a"
  by (simp add: all_unchecked_def is_checked_def)

lemma scan_unchecked:
  shows "add_directory_contents n fs d a = Some a' \<Longrightarrow> all_unchecked a \<Longrightarrow> all_unchecked a'"
    and "add_items n fs d items a = Some a' \<Longrightarrow> all_unchecked a \<Longrightarrow> all_unchecked a'"
proof -
  let ?P = "\<lambda>(d::string) a a'. all_unchecked a \<longrightarrow> all_unchecked a'"
  let ?Q = "\<lambda>(d::string) (items::string list) a a'. all_unchecked a \<longrightarrow> all_unchecked a'"
  have P: "add_directory_contents n fs d a = Some a' \<Longrightarrow> ?P d a a'"
    by (rule scan_rule(1) [where P = ?P and Q = ?Q and fs = fs]) simp_all
  have Q: "add_items n fs d items a = Some a' \<Longrightarrow> ?Q d items a a'"
    by (rule scan_rule(2) [where P = ?P and Q = ?Q and fs = fs]) simp_all
  show "add_directory_contents n fs d a = Some a' \<Longrightarrow> all_unchecked a \<Longrightarrow> all_unchecked a'"
    using P by blast
  show "add_items n fs d items a = Some a' \<Longrightarrow> all_unchecked a \<Longrightarrow> all_unchecked a'"
    using Q by blast
qed

lemma build_tree_for_unchecked:
  assumes "build_tree_for n fs folder a = Some a'" and u: "all_unchecked a"
  shows "all_unchecked a'"
proof (cases "\<not> check_folder_access_with_timeout fs folder \<or> realpath fs folder \<in> visited_dirs a")
  case True
  with assms show ?thesis by (auto simp: build_tree_for_def Let_def split: if_splits)
next
  case False
  define a1 where "a1 = a\<lparr>visited_dirs := insert (realpath fs folder) (visited_dirs a)\<rparr>"
  define a2 where "a2 = (if folder \<notin> tree_keys a1 then register_node folder True a1 else a1)"
  have "all_unchecked a1" using u by (simp add: all_unchecked_def is_checked_def a1_def)
  then have u2: "all_unchecked a2" by (simp add: a2_def)
  from False assms(1) have "add_directory_contents n fs folder a2 = Some a'"
    by (auto simp: build_tree_for_def Let_def a1_def a2_def split: if_splits)
  from scan_unchecked(1) [OF this u2] show ?thesis .
qed

lemma build_roots_unchecked:
  "build_roots n fs folders a = Some a' \<Longrightarrow> all_unchecked a \<Longrightarrow> all_unchecked a'"
proof (induction folders arbitrary: a)
  case Nil
  then show ?case by simp
next
  case (Cons folder folders)
  show ?case
  proof (cases "path_exists fs folder")
    case False
    with Cons show ?thesis by simp
  next
    case True
    with Cons.prems obtain a1 where
      a1: "build_tree_for n fs folder a = Some a1" and rest: "build_roots n fs folders a1 = Some a'"
      by (auto split: option.splits)
    from build_tree_for_unchecked [OF a1 Cons.prems(2)] Cons.IH [OF rest] show ?thesis by simp
  qed
qed

lemma delayed_checks_frame:
  "same_settings a (delayed_checks l a) \<and> tree_keys (delayed_checks l a) = tree_keys a"
proof (induction l arbitrary: a)
  case Nil
  then show ?case by simp
next
  case (Cons x l)
  obtain q c where x: "x = (q, c)" by (cases x)
  let ?b = "a\<lparr>folder_tree_data := set_checked q c (folder_tree_data a)\<rparr>"
  have b: "same_settings a ?b" "tree_keys ?b = tree_keys a" by simp_all
  show ?case
  proof (cases "q \<in> tree_keys a \<and> is_checked a q \<noteq> c \<and> \<not> filters_match a q")
    case True
    then have "delayed_checks (x # l) a = delayed_checks l ?b" by (simp add: x)
    moreover have "same_settings a (delayed_checks l ?b)"
      using b(1) Cons.IH [of ?b] by (blast intro: same_settings_trans)
    ultimately show ?thesis using Cons.IH [of ?b] b by simp
  next
    case False
    then have "delayed_checks (x # l) a = delayed_checks l a" by (auto simp: x)
    with Cons.IH [of a] show ?thesis by simp
  qed
qed

lemma is_checked_delayed_checks:
  "distinct (map fst l) \<Longrightarrow>
   is_checked (delayed_checks l a) p =
     (if p \<in> tree_keys a \<and> \<not> filters_match a p
      then (case map_of l p of Some c \<Rightarrow> c | None \<Rightarrow> is_checked a p)
      else is_checked a p)"
proof (induction l arbitrary: a)
  case Nil
  then show ?case by simp
next
  case (Cons x l)
  obtain q c where x: "x = (q, c)" by (cases x)
  from Cons.prems have d: "distinct (map fst l)" and nq: "q \<notin> fst ` set l" by (auto simp: x)
  from nq have none: "map_of l q = None" by (simp add: map_of_eq_None_iff)
  let ?b = "a\<lparr>folder_tree_data := set_checked q c (folder_tree_data a)\<rparr>"
  have fm: "filters_match ?b = filters_match a"
    by (rule ext) (simp add: filters_match_def)
  show ?case
  proof (cases "q \<in> tree_keys a \<and> is_checked a q \<noteq> c \<and> \<not> filters_match a q")
    case True
    then have "delayed_checks (x # l) a = delayed_checks l ?b" by (simp add: x)
    then show ?thesis
      using Cons.IH [OF d, of ?b] none True
      by (auto simp: x fm is_checked_set_checked split: option.splits)
  next
    case False
    then have "delayed_checks (x # l) a = delayed_checks l a" by (auto simp: x)
    then show ?thesis
      using Cons.IH [OF d, of a] none False
      by (auto simp: x split: option.splits)
  qed
qed

lemma timers_apply_checks [simp]: "timers (apply_checks l a) = timers a"
  by (induction l arbitrary: a) auto

lemma saved_apply_checks [simp]: "saved_folder_checks (apply_checks l a) = saved_folder_checks a"
  by (induction l arbitrary: a) auto

text \<open>
  C9. Saving writes into \<open>folder_checks\<close> one entry per path of
  \<open>folder_tree_data\<close>, with its checked state. When loading what was saved and
  rescanning returns, a path is checked exactly if it was saved as checked, has an entry
  in the rebuilt mapping and does not match the ignore patterns. The saved checks are not
  dropped then: \<open>apply_saved_checks\<close> schedules a second pass after 500 ms and the
  clearing of the saved checks after 2 s. The second pass, run after any number of polls,
  gives every saved path that has an entry by then and is not ignored its saved state, and
  leaves every other path as it is; the clearing empties the saved checks.
\<close>

theorem saved_checks_survive_reload:
  assumes dict: "distinct (map fst (folder_tree_data a))"
    and same_profile: "current_profile b = current_profile a"
    and load: "load_settings n fs (save_settings a files) b = Some a'"
    and polls: "schedule_folder_poll m fss a' = Some c"
  shows "map_of (cfg_folder_checks (settings_data a)) =
           map_option checked \<circ> map_of (folder_tree_data a) \<and>
         (\<forall>p. is_checked a' p \<longleftrightarrow>
                is_checked a p \<and> p \<in> tree_keys a' \<and> \<not> filters_match a' p) \<and>
         (500, DelayedApplyRemainingChecks) \<in> set (timers a') \<and>
         (2000, ClearSavedChecks) \<in> set (timers a') \<and>
         (\<forall>p. is_checked (run_callback DelayedApplyRemainingChecks c) p \<longleftrightarrow>
                (if p \<in> tree_keys a \<and> p \<in> tree_keys c \<and> \<not> filters_match c p
                 then is_checked a p else is_checked c p)) \<and>
         saved_folder_checks (run_callback ClearSavedChecks c) = []"
proof -
  let ?l = "collect_checks (folder_tree_data a) []"
  let ?b = "read_settings (settings_data a) b"
  have l: "map_of ?l p = map_option checked (map_of (folder_tree_data a) p)" for p
    using map_of_collect_checks [OF dict, of "[]" p] by (simp split: option.splits)
  have dl: "distinct (map fst ?l)" by (rule distinct_collect_checks) simp
  from load same_profile have "build_all_trees n fs ?b = Some a'"
    by (simp add: load_settings_def save_settings_def)
  then obtain a1 where a1: "build_roots n fs (root_folders ?b) (clear_trees ?b) = Some a1"
    and a': "a' = apply_saved_checks a1"
    by (auto simp: build_all_trees_def split: option.splits)
  have "all_unchecked (clear_trees ?b)"
    by (simp add: all_unchecked_def is_checked_def clear_trees_def)
  with a1 have u1: "all_unchecked a1" by (rule build_roots_unchecked)
  have "entries_justified fs (clear_trees ?b)"
    by (simp add: entries_justified_def clear_trees_def tree_keys_def)
  with build_roots_justified [OF a1] have "scan_grows (clear_trees ?b) a1"
    by (simp add: clear_trees_def)
  then have s1: "saved_folder_checks a1 = ?l"
    by (simp add: scan_grows_def same_settings_def clear_trees_def read_settings_def settings_data_def)
  have fm: "filters_match a' = filters_match a1"
    unfolding a' by (rule ext) (rule filters_match_same [OF apply_saved_checks_frame(1)])
  have k: "tree_keys a' = tree_keys a1" unfolding a' by (rule apply_saved_checks_frame(2))
  have first: "is_checked a' p \<longleftrightarrow> is_checked a p \<and> p \<in> tree_keys a' \<and> \<not> filters_match a' p" for p
  proof -
    have "is_checked a' p = is_checked (apply_checks ?l a1) p"
      unfolding a' by (simp add: is_checked_def s1)
    then have "is_checked a' p =
            (if p \<in> tree_keys a1 \<and> \<not> filters_match a1 p
             then (case map_of ?l p of Some c \<Rightarrow> c | None \<Rightarrow> is_checked a1 p)
             else is_checked a1 p)"
      by (simp only: is_checked_apply_checks [OF dl])
    moreover have "\<not> is_checked a1 p" using u1 by (simp add: all_unchecked_def)
    ultimately show ?thesis
      by (auto simp: l fm k is_checked_def split: option.splits)
  qed
  have saving: "map_of (cfg_folder_checks (settings_data a)) =
           map_option checked \<circ> map_of (folder_tree_data a)"
    by (rule ext) (simp add: settings_data_def l)
  have tm: "timers a' = timers a1 @ after_apply_timers"
    unfolding a' by (simp add: apply_saved_checks_def Let_def)
  have t1: "(500, DelayedApplyRemainingChecks) \<in> set (timers a')"
    and t2: "(2000, ClearSavedChecks) \<in> set (timers a')"
    by (simp_all add: tm after_apply_timers_def)
  have sa': "saved_folder_checks a' = ?l"
    unfolding a' by (simp add: apply_saved_checks_def Let_def s1)
  from schedule_folder_poll_keeps [OF polls] have "same_settings a' c" by (simp add: poll_keeps_def)
  then have sc: "saved_folder_checks c = ?l" using sa' by (simp add: same_settings_def)
  have ka: "p \<in> tree_keys a \<longleftrightarrow> map_of (folder_tree_data a) p \<noteq> None" for p
    by (simp add: tree_keys_def map_of_eq_None_iff)
  have second: "is_checked (run_callback DelayedApplyRemainingChecks c) p \<longleftrightarrow>
                (if p \<in> tree_keys a \<and> p \<in> tree_keys c \<and> \<not> filters_match c p
                 then is_checked a p else is_checked c p)" for p
  proof -
    have "is_checked (run_callback DelayedApplyRemainingChecks c) p =
            (if p \<in> tree_keys c \<and> \<not> filters_match c p
             then (case map_of ?l p of Some v \<Rightarrow> v | None \<Rightarrow> is_checked c p)
             else is_checked c p)"
      by (simp only: run_callback.simps delayed_apply_remaining_checks_def sc
            is_checked_delayed_checks [OF dl])
    then show ?thesis
      by (cases "map_of (folder_tree_data a) p") (auto simp: l ka is_checked_def)
  qed
  have third: "saved_folder_checks (run_callback ClearSavedChecks c) = []"
    by (simp add: clear_saved_checks_def)
  from saving first t1 t2 second third show ?thesis by blast
qed

theorem saved_checks_survive_reload_witness:
  "distinct (map fst (folder_tree_data proj_checked)) \<and>
   load_settings 3 proj_fs (save_settings proj_checked Map.empty) proj_app = Some proj_reloaded \<and>
   schedule_folder_poll 3 [] proj_reloaded = Some proj_reloaded \<and>
   is_checked proj_checked ''/proj/old.txt'' \<and> \<not> is_checked proj_reloaded ''/proj/old.txt'' \<and>
   is_checked proj_reloaded ''/proj/src/a.py'' \<and>
   is_checked (run_callback DelayedApplyRemainingChecks proj_reloaded) ''/proj/src/a.py''"
proof -
  have h1: "distinct (map fst (folder_tree_data proj_checked))" by code_simp
  have h2: "current_profile proj_app = current_profile proj_checked" by code_simp
  have h3: "load_settings 3 proj_fs (save_settings proj_checked Map.empty) proj_app = Some proj_reloaded"
    by code_simp
  have h4: "schedule_folder_poll 3 [] proj_reloaded = Some proj_reloaded" by simp
  have k: "''/proj/old.txt'' \<notin> tree_keys proj_reloaded" by code_simp
  have c: "is_checked proj_checked ''/proj/old.txt''" "is_checked proj_checked ''/proj/src/a.py''"
    "''/proj/src/a.py'' \<in> tree_keys proj_reloaded"
    "\<not> filters_match proj_reloaded ''/proj/src/a.py''"
    "''/proj/src/a.py'' \<in> tree_keys proj_checked" by code_simp+
  note t = saved_checks_survive_reload [OF h1 h2 h3 h4]
  from t k have n: "\<not> is_checked proj_reloaded ''/proj/old.txt''" by blast
  from t c have y: "is_checked proj_reloaded ''/proj/src/a.py''" by blast
  from t c have z: "is_checked (run_callback DelayedApplyRemainingChecks proj_reloaded) ''/proj/src/a.py''"
    by presburger
  from h1 h3 h4 c(1) n y z show ?thesis by (intro conjI)
qed

text \<open>
  A saved path without an entry when the rescan returns is not dropped: the rescan does not
  enter \<open>/proj/.cache/sub\<close>, a poll does, and the second pass checks it again.
\<close>

theorem saved_check_returns_after_poll:
  "load_settings 3 cache_fs (save_settings cache_checked Map.empty) cache_app = Some cache_loaded \<and>
   ''/proj/.cache/sub'' \<notin> tree_keys cache_loaded \<and>
   schedule_folder_poll 3 [cache_fs] cache_loaded = Some cache_repolled \<and>
   is_checked (run_callback DelayedApplyRemainingChecks cache_repolled) ''/proj/.cache/sub''"
  by code_simp

section \<open>What an export leaves out\<close>



lemma uncheck_frame [simp]:
  "filters_match (uncheck q a) = filters_match a"
  "map fst (folder_tree_data (uncheck q a)) = map fst (folder_tree_data a)"
  "tree_keys (uncheck q a) = tree_keys a"
  "root_folders (uncheck q a) = root_folders a"
  "copy_entire_tree (uncheck q a) = copy_entire_tree a"
  by (auto simp: uncheck_def filters_match_def fun_eq_iff)











text \<open>The export of the project with the stale check, in full.\<close>

lemma stale_export:
  "map_option (\<lambda>e. (exp_file_tree e, exp_file_contents e)) (on_copy_to_clipboard 3 proj_fs stale_app) =
     Some ([PathLine ''/proj/src'', ChildLine ''/proj/src/a.py'', PathLine ''/proj/notes.txt''],
           [''/proj/notes.txt'', ''/proj/src/a.py''])"
  by code_simp


section \<open>The cancellation flag\<close>

lemma is_cancelled_press: "is_cancelled d \<Longrightarrow> is_cancelled (press c d)"
  by (cases c) (auto simp: is_cancelled_def on_skip_def on_cancel_def on_disable_timeouts_def)

lemma is_cancelled_presses: "is_cancelled d \<Longrightarrow> is_cancelled (fold press cs d)"
  by (induction cs arbitrary: d) (auto intro: is_cancelled_press)

text \<open>
  C8, as the code has it. A press of any of the three buttons on a new dialog sets
  \<open>cancelled\<close>, and once set it stays set whatever is pressed afterwards: no handler
  stores \<open>False\<close>. (A later press may store a different value.)
\<close>

theorem cancelled_is_never_reset:
  "is_cancelled (press c new_dialog) \<and> (is_cancelled d \<longrightarrow> is_cancelled (fold press cs d))"
proof -
  have "is_cancelled (press c new_dialog)"
    by (cases c)
       (auto simp: is_cancelled_def on_skip_def on_cancel_def on_disable_timeouts_def new_dialog_def)
  then show ?thesis using is_cancelled_presses by blast
qed

theorem cancelled_is_never_reset_witness:
  "is_cancelled (press ClickSkip new_dialog) \<and>
   is_cancelled (fold press [ClickSkip, ClickCancel] (press ClickDisableTimeouts new_dialog))"
proof -
  have "is_cancelled (press ClickDisableTimeouts new_dialog)" by code_simp
  with cancelled_is_never_reset [of ClickSkip "press ClickDisableTimeouts new_dialog"
         "[ClickSkip, ClickCancel]"]
  show ?thesis by blast
qed


text \<open>
  C8 as stated fails within one attempt: the operator disables the timeouts and then
  presses the relabelled skip button; the flag is written twice and passes from
  \<open>DisableTimeouts\<close> to \<open>Skip\<close>.
\<close>

theorem cancelled_is_overwritten:
  "get_cancel_type (w_dialog (snd (monitor_loop 0 [poll_disable] (start_watch proj_app new_dialog)))) =
     DisableTimeouts \<and>
   get_cancel_type (w_dialog (snd (monitor_loop 0 [poll_disable, poll_skip]
       (start_watch proj_app new_dialog)))) = Skip"
  by (simp add: poll_disable_def poll_skip_def start_watch_def new_dialog_def worker_step_def
        ui_step_def is_cancelled_def get_cancel_type_def on_disable_timeouts_def on_skip_def
        FOLDER_LOADING_TIMEOUT_def Let_def)

section \<open>Disabling the timeouts\<close>

lemma worker_step_frame [simp]:
  "timeouts_disabled (worker_step p s) = timeouts_disabled s"
  "w_dialog (worker_step p s) = w_dialog s"
  by (simp_all add: worker_step_def split: option.splits)

lemma ui_step_frame [simp]:
  "timeouts_disabled (ui_step p s) = timeouts_disabled s"
  "w_app (ui_step p s) = w_app s"
  by (simp_all add: ui_step_def)

lemma disabled_never_times_out:
  "timeouts_disabled s \<Longrightarrow>
     fst (monitor_loop start_time polls s) \<noteq> RaisedTimeout \<and>
     timeouts_disabled (snd (monitor_loop start_time polls s))"
proof (induction polls arbitrary: s)
  case Nil
  then show ?case by simp
next
  case (Cons p polls)
  let ?s0 = "worker_step p s"
  let ?s1 = "ui_step p ?s0"
  let ?s2 = "?s1\<lparr>timeouts_disabled := True, w_app := (w_app ?s1)\<lparr>enable_timeouts := False\<rparr>\<rparr>"
  have d1: "timeouts_disabled ?s1" using Cons.prems by simp
  have d2: "timeouts_disabled ?s2" by simp
  from Cons.IH [OF d1] Cons.IH [OF d2] d1 Cons.prems
  show ?case by (auto simp: Let_def)
qed

text \<open>
  C7, as the code has it. When a poll of the watchdog finds that the operator has
  disabled the timeouts, the loop sets its local \<open>timeouts_disabled\<close>, so that no
  later poll of this attempt raises the timeout, and it also clears the application's
  \<open>enable_timeouts\<close> setting, which is what \<open>save_settings\<close> writes to the
  configuration.
\<close>

theorem disable_timeouts_clears_the_setting:
  assumes alive: "thread_alive p" and ok: "window_ok p"
    and pressed: "get_cancel_type (fold press (clicks p) (w_dialog s)) = DisableTimeouts"
  shows "\<exists>s1. monitor_loop start_time [p] s = (StillPolling, s1) \<and>
              timeouts_disabled s1 \<and> \<not> enable_timeouts (w_app s1) \<and>
              \<not> cfg_enable_timeouts (settings_data (w_app s1)) \<and>
              monitor_loop start_time (p # later) s = monitor_loop start_time later s1 \<and>
              fst (monitor_loop start_time later s1) \<noteq> RaisedTimeout"
proof -
  let ?s1 = "ui_step p (worker_step p s)"
  let ?s2 = "?s1\<lparr>timeouts_disabled := True, w_app := (w_app ?s1)\<lparr>enable_timeouts := False\<rparr>\<rparr>"
  have c: "get_cancel_type (w_dialog ?s1) = DisableTimeouts" "is_cancelled (w_dialog ?s1)"
    using pressed by (simp_all add: ui_step_def is_cancelled_def get_cancel_type_def)
  have one: "monitor_loop start_time [p] s = (StillPolling, ?s2)"
    using alive ok c by (simp add: Let_def)
  have more: "monitor_loop start_time (p # later) s = monitor_loop start_time later ?s2"
    using alive ok c by (simp add: Let_def)
  have "timeouts_disabled ?s2" by simp
  from disabled_never_times_out [OF this]
  have "fst (monitor_loop start_time later ?s2) \<noteq> RaisedTimeout" by blast
  with one more show ?thesis by (simp add: settings_data_def)
qed

theorem disable_timeouts_clears_the_setting_witness:
  "enable_timeouts proj_app \<and>
   (\<exists>s1. monitor_loop 0 [poll_disable] (start_watch proj_app new_dialog) = (StillPolling, s1) \<and>
         timeouts_disabled s1 \<and> \<not> enable_timeouts (w_app s1) \<and>
         \<not> cfg_enable_timeouts (settings_data (w_app s1)) \<and>
         monitor_loop 0 [poll_disable, poll_quiet 1000] (start_watch proj_app new_dialog) =
           monitor_loop 0 [poll_quiet 1000] s1 \<and>
         fst (monitor_loop 0 [poll_quiet 1000] s1) \<noteq> RaisedTimeout)"
proof -
  have e: "enable_timeouts proj_app" by (simp add: proj_app_def)
  have a: "thread_alive poll_disable" "window_ok poll_disable" by (simp_all add: poll_disable_def)
  have p: "get_cancel_type (fold press (clicks poll_disable) (w_dialog (start_watch proj_app new_dialog))) =
             DisableTimeouts"
    by (simp add: poll_disable_def start_watch_def new_dialog_def get_cancel_type_def
          on_disable_timeouts_def)
  from disable_timeouts_clears_the_setting [OF a p, of 0 "[poll_quiet 1000]"] e
  show ?thesis by blast
qed

text \<open>
  C7 as stated fails: before the attempt \<open>enable_timeouts\<close> is set, saved as set, and
  an attempt polled after 1000 seconds times out. After an attempt in which the operator
  disabled the timeouts, the configuration that \<open>save_settings\<close> writes has
  \<open>enable_timeouts\<close> cleared, and a new attempt (new dialog, new local flag) polled
  after 1000 seconds goes on polling.
\<close>

theorem disable_timeouts_outlives_the_attempt:
  "enable_timeouts proj_app \<and>
   cfg_enable_timeouts (settings_data proj_app) \<and>
   fst (monitor_loop 0 [poll_quiet 1000] (start_watch proj_app new_dialog)) = RaisedTimeout \<and>
   \<not> cfg_enable_timeouts (settings_data
        (w_app (snd (monitor_loop 0 [poll_disable] (start_watch proj_app new_dialog))))) \<and>
   fst (monitor_loop 0 [poll_quiet 1000]
          (start_watch (w_app (snd (monitor_loop 0 [poll_disable] (start_watch proj_app new_dialog))))
             new_dialog)) = StillPolling"
  by (simp add: poll_disable_def poll_quiet_def start_watch_def new_dialog_def worker_step_def
        ui_step_def is_cancelled_def get_cancel_type_def on_disable_timeouts_def
        FOLDER_LOADING_TIMEOUT_def Let_def settings_data_def proj_app_def)

section \<open>When the watchdogs time out\<close>

lemma is_cancelled_grace_status [simp]:
  "is_cancelled (grace_status limit e d) = is_cancelled d"
  by (simp add: grace_status_def update_status_def is_cancelled_def)

lemma get_cancel_type_grace_status [simp]:
  "get_cancel_type (grace_status limit e d) = get_cancel_type d"
  by (simp add: grace_status_def update_status_def get_cancel_type_def)

lemma non_blocking_timeout_after_grace:
  "fst (monitor_thread_non_blocking start_time tmo ticks d flag) = OnError TimedOutError \<Longrightarrow>
   \<exists>limit. tmo = Some limit \<and> (\<exists>t \<in> set ticks. limit + 30 \<le> t_now t - start_time)"
proof (induction ticks arbitrary: tmo d flag)
  case Nil
  then show ?case by simp
next
  case (Cons t ticks)
  let ?d1 = "fold press (t_clicks t) d"
  let ?tmo1 = "if is_cancelled ?d1 \<and> get_cancel_type ?d1 = DisableTimeouts then None else tmo"
  let ?e = "t_now t - start_time"
  show ?case
  proof (cases "t_thread_alive t \<and> \<not> (is_cancelled ?d1 \<and> get_cancel_type ?d1 \<in> {Skip, Cancel})")
    case False
    with Cons.prems show ?thesis by (auto simp: Let_def split: if_splits)
  next
    case run: True
    show ?thesis
    proof (cases ?tmo1)
      case None
      with run Cons.prems
      have "fst (monitor_thread_non_blocking start_time None ticks ?d1 flag) = OnError TimedOutError"
        by (auto simp: Let_def split: if_splits)
      from Cons.IH [OF this] show ?thesis by simp
    next
      case (Some limit)
      then have tmo: "tmo = Some limit"
        and keep: "\<not> (is_cancelled ?d1 \<and> get_cancel_type ?d1 = DisableTimeouts)"
        by (auto split: if_splits)
      from run keep tmo have step:
        "monitor_thread_non_blocking start_time tmo (t # ticks) d flag =
           (if ?e > limit
            then (if ?e < limit + 30
                  then monitor_thread_non_blocking start_time (Some limit) ticks
                         (grace_status limit ?e ?d1) flag
                  else (OnError TimedOutError, Some limit, ?d1, True))
            else monitor_thread_non_blocking start_time (Some limit) ticks ?d1 flag)"
        by (auto simp: Let_def)
      show ?thesis
      proof (cases "?e > limit")
        case False
        with step Cons.prems
        have "fst (monitor_thread_non_blocking start_time (Some limit) ticks ?d1 flag) =
                OnError TimedOutError" by simp
        from Cons.IH [OF this] tmo show ?thesis by auto
      next
        case over: True
        show ?thesis
        proof (cases "?e < limit + 30")
          case True
          with over step Cons.prems
          have "fst (monitor_thread_non_blocking start_time (Some limit) ticks
                       (grace_status limit ?e ?d1) flag) = OnError TimedOutError" by simp
          from Cons.IH [OF this] tmo show ?thesis by auto
        next
          case False
          then have "limit + 30 \<le> ?e" by simp
          with tmo show ?thesis by auto
        qed
      qed
    qed
  qed
qed

lemma non_blocking_quiet_step:
  assumes "t_thread_alive t" "t_clicks t = []" "\<not> is_cancelled d"
  shows "monitor_thread_non_blocking start_time (Some limit) (t # later) d flag =
     (if limit + 30 \<le> t_now t - start_time then (OnError TimedOutError, Some limit, d, True)
      else monitor_thread_non_blocking start_time (Some limit) later
             (if limit < t_now t - start_time
              then grace_status limit (t_now t - start_time) d else d) flag)"
  using assms by (auto simp: Let_def)

lemma blocking_quiet_step:
  assumes "thread_alive p" "window_ok p" "clicks p = []" "worker_enable_timeouts p = None"
    and "\<not> is_cancelled (w_dialog s)" "enable_timeouts (w_app s)" "\<not> timeouts_disabled s"
  shows "monitor_loop start_time (p # later) s =
     (if now p - start_time > FOLDER_LOADING_TIMEOUT then (RaisedTimeout, s\<lparr>cancel_flag := True\<rparr>)
      else monitor_loop start_time later s)"
proof -
  have same: "worker_step p s = s" "ui_step p s = s"
    using assms by (simp_all add: ui_step_def worker_step_def)
  show ?thesis using assms by (simp add: Let_def same)
qed

text \<open>
  The non-blocking monitor on a worker that never returns, with no button pressed: it
  reports the timeout at the first poll whose elapsed time is at least the budget plus
  30 seconds, and re-arms itself before.
\<close>

lemma non_blocking_stuck_worker:
  assumes quiet: "\<forall>t \<in> set ticks. t_thread_alive t \<and> t_clicks t = []"
  shows "\<not> is_cancelled d \<Longrightarrow>
         fst (monitor_thread_non_blocking start_time (Some limit) ticks d flag) =
           (if \<exists>t \<in> set ticks. limit + 30 \<le> t_now t - start_time
            then OnError TimedOutError else Rescheduled)"
  using quiet
proof (induction ticks arbitrary: d)
  case Nil
  show ?case by simp
next
  case (Cons t ticks)
  from Cons.prems have a: "t_thread_alive t" "t_clicks t = []" and fresh: "\<not> is_cancelled d"
    by simp_all
  from Cons.prems have q: "\<forall>t \<in> set ticks. t_thread_alive t \<and> t_clicks t = []" by simp
  let ?d' = "if limit < t_now t - start_time then grace_status limit (t_now t - start_time) d else d"
  have "\<not> is_cancelled ?d'" using fresh by simp
  then have ih: "fst (monitor_thread_non_blocking start_time (Some limit) ticks ?d' flag) =
           (if \<exists>t \<in> set ticks. limit + 30 \<le> t_now t - start_time
            then OnError TimedOutError else Rescheduled)" using q by (rule Cons.IH)
  show ?case
  proof (cases "limit + 30 \<le> t_now t - start_time")
    case True
    then show ?thesis by (subst non_blocking_quiet_step [OF a fresh]) simp
  next
    case False
    then have step: "monitor_thread_non_blocking start_time (Some limit) (t # ticks) d flag =
        monitor_thread_non_blocking start_time (Some limit) ticks ?d' flag"
      by (subst non_blocking_quiet_step [OF a fresh]) (simp only: if_False)
    have ex: "(\<exists>u \<in> set (t # ticks). limit + 30 \<le> t_now u - start_time) =
              (\<exists>u \<in> set ticks. limit + 30 \<le> t_now u - start_time)"
      using False by simp
    show ?thesis by (simp only: step ih ex)
  qed
qed

text \<open>
  The blocking watchdog on such a worker, with timeouts enabled: it raises the timeout
  at the first poll whose elapsed time exceeds the budget.
\<close>

lemma blocking_stuck_worker:
  assumes quiet: "\<forall>p \<in> set polls. thread_alive p \<and> window_ok p \<and> clicks p = [] \<and>
                    worker_enable_timeouts p = None"
    and fresh: "\<not> is_cancelled (w_dialog s)"
    and on: "enable_timeouts (w_app s)" "\<not> timeouts_disabled s"
  shows "fst (monitor_loop start_time polls s) =
           (if \<exists>p \<in> set polls. now p - start_time > FOLDER_LOADING_TIMEOUT
            then RaisedTimeout else StillPolling)"
  using quiet
proof (induction polls)
  case Nil
  show ?case by simp
next
  case (Cons p polls)
  from Cons.prems have a: "thread_alive p" "window_ok p" "clicks p = []"
    "worker_enable_timeouts p = None" by simp_all
  from Cons.prems have "\<forall>p \<in> set polls. thread_alive p \<and> window_ok p \<and> clicks p = [] \<and>
                    worker_enable_timeouts p = None" by simp
  then have ih: "fst (monitor_loop start_time polls s) =
           (if \<exists>p \<in> set polls. now p - start_time > FOLDER_LOADING_TIMEOUT
            then RaisedTimeout else StillPolling)" by (rule Cons.IH)
  show ?case
  proof (cases "now p - start_time > FOLDER_LOADING_TIMEOUT")
    case True
    then show ?thesis by (subst blocking_quiet_step [OF a fresh on]) simp
  next
    case False
    then show ?thesis by (subst blocking_quiet_step [OF a fresh on]) (simp add: ih)
  qed
qed

text \<open>
  At 61 seconds of a budget of 60 the non-blocking monitor is within its grace period
  and re-arms itself.
\<close>

lemma non_blocking_monitor_waits_for_grace:
  "fst (monitor_thread_non_blocking 0 (Some FOLDER_LOADING_TIMEOUT) [quiet_tick 61] new_dialog False) =
     Rescheduled"
proof -
  have q: "\<forall>t \<in> set [quiet_tick 61]. t_thread_alive t \<and> t_clicks t = []"
    by (simp add: quiet_tick_def)
  have f: "\<not> is_cancelled new_dialog" by (simp add: is_cancelled_def new_dialog_def)
  show ?thesis
    by (subst non_blocking_stuck_worker [OF q f])
       (simp add: quiet_tick_def FOLDER_LOADING_TIMEOUT_def)
qed

text \<open>
  C3 at a worker that never returns, polled 61 seconds after the start with the budget
  of 60 seconds, timeouts enabled and no button pressed: the watchdog that every
  attempt runs, \<open>load_settings_windows_timeout_with_dialog\<close>, declares the timeout at
  that poll, 29 seconds before the budget plus the grace extension is over.
\<close>

theorem blocking_watchdog_has_no_grace:
  "fst (load_settings_windows_timeout_with_dialog 0 [poll_quiet 61] nobody_home proj_app new_dialog) =
     Failed TimedOutError \<and>
   now (poll_quiet 61) - 0 < FOLDER_LOADING_TIMEOUT + 30"
  by (simp add: load_settings_windows_timeout_with_dialog_def poll_quiet_def start_watch_def
        new_dialog_def worker_step_def ui_step_def is_cancelled_def get_cancel_type_def
        FOLDER_LOADING_TIMEOUT_def Let_def proj_app_def)

section \<open>The fallback selection is the first qualifying candidate\<close>

lemma has_problematic_paths_iff:
  "has_problematic_paths fs folders \<longleftrightarrow>
     (\<exists>folder \<in> set folders. is_potentially_problematic_path fs folder)"
  by (induction folders) auto

lemma try_profiles_find:
  "try_profiles fs st failed ps =
     (case find (\<lambda>p. p \<noteq> failed \<and> qualifies fs st p) ps of Some p \<Rightarrow> p | None \<Rightarrow> ''default'')"
proof (induction ps)
  case Nil
  then show ?case by simp
next
  case (Cons p ps)
  show ?case
  proof (cases "p = failed")
    case True
    then show ?thesis using Cons.IH by simp
  next
    case nf: False
    show ?thesis
    proof (cases "profile_path_file st p")
      case Missing
      then show ?thesis using nf Cons.IH
        by (auto simp: qualifies_def profile_path_file_def split: if_splits)
    next
      case Unreadable
      then show ?thesis using nf Cons.IH
        by (auto simp: qualifies_def profile_path_file_def split: if_splits)
    next
      case (Settings folders)
      then show ?thesis using nf Cons.IH
        by (auto simp: qualifies_def profile_path_file_def has_problematic_paths_iff
                 split: if_splits)
    qed
  qed
qed

lemma find_in_or_none:
  "(case find P xs of Some p \<Rightarrow> p | None \<Rightarrow> d) = r \<Longrightarrow> r = d \<or> (r \<in> set xs \<and> P r)"
  by (induction xs) (auto split: if_splits)

lemma find_none_if_result_fails:
  "(case find P xs of Some p \<Rightarrow> p | None \<Rightarrow> d) = r \<Longrightarrow> \<not> P r \<Longrightarrow> \<forall>x \<in> set xs. \<not> P x"
  by (induction xs) (auto split: if_splits)

lemma default_first_covers: "set xs \<subseteq> set (d # filter (\<lambda>p. p \<noteq> d) xs)"
  by auto

text \<open>
  C4, as the code has it. \<open>find_working_fallback_profile\<close> is a total function of the
  store, the filesystem and the failed profile; it returns the first candidate other
  than the failed one, the default profile ranked first, that qualifies, and the
  default profile when none does. Its answer differs from the failed profile unless
  the failed profile is the default profile itself, and it can equal the failed profile
  only when no other candidate qualifies.
\<close>

theorem fallback_is_first_qualifying_or_default:
  "find_working_fallback_profile fs st failed =
     ChooseFallback fs st (get_available_profiles st) failed \<and>
   (find_working_fallback_profile fs st failed \<noteq> failed \<or> failed = ''default'') \<and>
   (find_working_fallback_profile fs st failed = failed \<longrightarrow>
      \<not> (\<exists>p \<in> set (get_available_profiles st). p \<noteq> failed \<and> qualifies fs st p))"
proof -
  define ps where "ps = ''default'' # filter (\<lambda>p. p \<noteq> ''default'') (get_available_profiles st)"
  define P where "P = (\<lambda>p. p \<noteq> failed \<and> qualifies fs st p)"
  define r where "r = find_working_fallback_profile fs st failed"
  define dflt where "dflt = ''default''"
  have eq: "(case find P ps of Some p \<Rightarrow> p | None \<Rightarrow> dflt) = r"
    unfolding r_def P_def ps_def dflt_def find_working_fallback_profile_def
    by (rule try_profiles_find [symmetric])
  have a: "r = ChooseFallback fs st (get_available_profiles st) failed"
    unfolding ChooseFallback_def using eq unfolding P_def ps_def dflt_def by (rule sym)
  from find_in_or_none [OF eq] have "r = dflt \<or> P r" by blast
  then have b: "r \<noteq> failed \<or> failed = dflt" unfolding P_def by blast
  have c: "\<not> (\<exists>p \<in> set (get_available_profiles st). P p)" if same: "r = failed"
  proof -
    from same have "\<not> P r" unfolding P_def by simp
    from find_none_if_result_fails [OF eq this] have "\<forall>x \<in> set ps. \<not> P x" .
    moreover have "set (get_available_profiles st) \<subseteq> set ps"
      unfolding ps_def by (rule default_first_covers)
    ultimately show ?thesis by blast
  qed
  from a b c show ?thesis unfolding r_def P_def dflt_def by blast
qed

theorem fallback_is_first_qualifying_or_default_witness:
  "find_working_fallback_profile proj_fs two_profiles ''work'' = ''home'' \<and>
   ChooseFallback proj_fs two_profiles (get_available_profiles two_profiles) ''work'' = ''home'' \<and>
   find_working_fallback_profile proj_fs only_default ''default'' = ''default'' \<and>
   get_available_profiles only_default = [''default'']"
proof -
  have h: "ChooseFallback proj_fs two_profiles (get_available_profiles two_profiles) ''work'' = ''home''"
    by code_simp
  have d: "find_working_fallback_profile proj_fs only_default ''default'' = ''default''" by code_simp
  have g: "get_available_profiles only_default = [''default'']" by code_simp
  have "find_working_fallback_profile proj_fs two_profiles ''work'' =
          ChooseFallback proj_fs two_profiles (get_available_profiles two_profiles) ''work''"
    by (rule fallback_is_first_qualifying_or_default [of proj_fs two_profiles "''work''",
          THEN conjunct1])
  then have "find_working_fallback_profile proj_fs two_profiles ''work'' = ''home''"
    by (simp only: h)
  with h d g show ?thesis by (intro conjI)
qed

text \<open>
  C4 as stated fails when the default profile is the one that failed and no other
  profile exists: the answer is the failed profile.
\<close>

theorem fallback_returns_the_failed_default:
  "get_available_profiles only_default = [''default''] \<and>
   find_working_fallback_profile proj_fs only_default ''default'' = ''default''"
  by code_simp

end
